theory Spec2Isabelle
  imports Main "HOL-Library.AList"
begin

section \<open>The History engine of rewind: data model\<close>

text \<open>
  The sources hold two revisions of the implementation. \<^verbatim>\<open>rewind/src/history.c\<close> is the
  earlier one: its \<^verbatim>\<open>rwn_history_schedule\<close> has no phase argument and its
  \<^verbatim>\<open>rwn_history_state_delta\<close> has no \<^verbatim>\<open>max_threads\<close>, so the test suite
  \<^verbatim>\<open>tests/tst_history.c\<close> and the documented header do not fit it. The later revision
  (the unnamed source file that includes \<^verbatim>\<open>pthread.h\<close>) defines the six-argument
  \<^verbatim>\<open>rwn_history_schedule\<close> and the five-argument \<^verbatim>\<open>rwn_history_state_delta\<close> that the
  test suite calls. The development follows the later revision; the two range operations
  of the earlier one are modelled next to it, under names that end in \<open>_earlier\<close>, to
  state where the revisions differ.

  Conventions of the embedding.
  \<^item> A C \<^verbatim>\<open>int\<close> is an \<^typ>\<open>int\<close>; the only arithmetic that can leave the range of a C
    \<^verbatim>\<open>int\<close> on ordinary inputs is the increment of the loop counter of
    \<^verbatim>\<open>rwn_history_state_delta\<close>, and that overflow is a branch of the model.
  \<^item> A pointer that may be \<^verbatim>\<open>NULL\<close> is an \<^typ>\<open>'a option\<close>, with \<^term>\<open>None\<close> for \<^verbatim>\<open>NULL\<close>.
  \<^item> Every \<^verbatim>\<open>struct EventListEntry\<close> is a separate \<^verbatim>\<open>malloc\<close> block and the code compares
    such blocks by address only. The field \<open>ident\<close> stands for that address: it is the
    number of successful \<^verbatim>\<open>rwn_history_schedule\<close> calls made on the History before the
    block was allocated, so it is fresh and it records the insertion order.
  \<^item> The caller's memory (the object behind \<^verbatim>\<open>state\<close>, the payloads) is a value of type
    \<open>'w\<close>; an apply or destroy behaviour is a function on it, and it does not call back into
    the History. Every function that may run caller behaviour returns the new \<open>'w\<close> and
    the list of calls it made, in order.
  \<^item> Counters of list elements (\<^verbatim>\<open>evtcount\<close>, \<^verbatim>\<open>LL_COUNT\<close>) stay far below the range of
    \<^verbatim>\<open>int\<close>: every counted element is a live \<^verbatim>\<open>malloc\<close> block.
\<close>

type_synonym ('e, 's, 'w) RwnEventApplyFunc = "'e \<Rightarrow> 's option \<Rightarrow> 'w \<Rightarrow> 'w"
type_synonym ('e, 'w) RwnEventDestroyFunc = "'e option \<Rightarrow> 'w \<Rightarrow> 'w"

record ('e, 's, 'w) EventListEntry =
  ident :: nat
  user_event :: "'e option"
  user_event_apply_func :: "('e, 's, 'w) RwnEventApplyFunc option"
  user_event_destroy_func :: "('e, 'w) RwnEventDestroyFunc option"
  phase :: int

text \<open>
  A \<^verbatim>\<open>struct TimepointHashMapEntry\<close> is a pair of the key and the event list; the uthash
  table is the list of these pairs in the order in which the keys were added, which is
  the order in which \<^verbatim>\<open>HASH_ITER\<close> visits them.
\<close>

type_synonym ('e, 's, 'w) TimepointHashMap = "(int \<times> ('e, 's, 'w) EventListEntry list) list"

text \<open>
  A handle stores the timepoint and the address of its event list entry. Each successful
  schedule allocates one entry and one handle, so a handle is identified by its
  contents.
\<close>

record RwnEventHandle =
  timepoint :: int
  event_list_elem :: nat

record ('e, 's, 'w) RwnHistory =
  timepoint_hash_map :: "('e, 's, 'w) TimepointHashMap"
  event_handle_list :: "RwnEventHandle list"
  next_ident :: nat

text \<open>
  The calls into caller code and into the thread library, as they are made.
  \<open>Applied i\<close>: the apply behaviour of the entry \<open>i\<close> ran; \<open>Destroyed i\<close>: its destroy
  behaviour ran; \<open>Spawned t p i\<close>: \<^verbatim>\<open>pthread_create\<close> for the entry \<open>i\<close> of phase \<open>p\<close>
  at timepoint \<open>t\<close>; \<open>Joined i\<close>: \<^verbatim>\<open>pthread_join\<close> returned for that thread.
\<close>

datatype call = Applied nat | Destroyed nat | Spawned int int nat | Joined nat

datatype fault = AssertionFailure | SignedIntegerOverflow

definition INT_MAX :: int where
  "INT_MAX = 2147483647"

section \<open>The list and hash macros\<close>

text \<open>
  \<^verbatim>\<open>utlist.h\<close> and \<^verbatim>\<open>uthash.h\<close> are third-party headers; the macros are modelled by what they
  do to the sequence of elements. \<^verbatim>\<open>LL_SORT\<close> is a merge sort that takes from the left
  run when the comparison says "equal", that is, a stable sort; the model sorts by stable
  insertion with the same comparison function.
\<close>

definition LL_APPEND :: "'a list \<Rightarrow> 'a \<Rightarrow> 'a list" where
  "LL_APPEND head add = head @ [add]"

definition LL_COUNT :: "'a list \<Rightarrow> int" where
  "LL_COUNT head = int (length head)"

fun LL_SORT_insert :: "('a \<Rightarrow> 'a \<Rightarrow> int) \<Rightarrow> 'a \<Rightarrow> 'a list \<Rightarrow> 'a list" where
  "LL_SORT_insert cmp x [] = [x]"
| "LL_SORT_insert cmp x (y # ys) =
     (if cmp x y \<le> 0 then x # y # ys else y # LL_SORT_insert cmp x ys)"

definition LL_SORT :: "('a \<Rightarrow> 'a \<Rightarrow> int) \<Rightarrow> 'a list \<Rightarrow> 'a list" where
  "LL_SORT cmp xs = foldr (LL_SORT_insert cmp) xs []"

text \<open>Deleting a list node by its address.\<close>

fun LL_DELETE :: "('e, 's, 'w) EventListEntry list \<Rightarrow> nat \<Rightarrow> ('e, 's, 'w) EventListEntry list" where
  "LL_DELETE [] del = []"
| "LL_DELETE (x # xs) del = (if ident x = del then xs else x # LL_DELETE xs del)"

definition HASH_FIND_INT ::
  "('e, 's, 'w) TimepointHashMap \<Rightarrow> int \<Rightarrow> ('e, 's, 'w) EventListEntry list option" where
  "HASH_FIND_INT head key = map_of head key"

text \<open>
  Storing a changed \<open>event_list\<close> in the map entry of a key. For a key that is absent this
  is \<^verbatim>\<open>HASH_ADD_INT\<close> of a new entry, which goes to the end of the table.
\<close>

definition set_event_list ::
  "('e, 's, 'w) TimepointHashMap \<Rightarrow> int \<Rightarrow> ('e, 's, 'w) EventListEntry list
     \<Rightarrow> ('e, 's, 'w) TimepointHashMap" where
  "set_event_list head key es = AList.update key es head"

definition HASH_DEL :: "('e, 's, 'w) TimepointHashMap \<Rightarrow> int \<Rightarrow> ('e, 's, 'w) TimepointHashMap" where
  "HASH_DEL head key = AList.delete key head"

section \<open>The operations\<close>

definition rwn_history_create :: "('e, 's, 'w) RwnHistory" where
  "rwn_history_create =
     \<lparr>timepoint_hash_map = [], event_handle_list = [], next_ident = 0\<rparr>"

definition cmp_event_list_entries_by_phase ::
  "('e, 's, 'w) EventListEntry \<Rightarrow> ('e, 's, 'w) EventListEntry \<Rightarrow> int" where
  "cmp_event_list_entries_by_phase lhs rhs =
     (if phase lhs < phase rhs then - 1 else if phase lhs > phase rhs then 1 else 0)"

text \<open>
  The event list stored for a timepoint: the list of the map entry, and the empty list
  (\<^verbatim>\<open>NULL\<close>) for a map entry that has just been created.
\<close>

definition event_list_at ::
  "('e, 's, 'w) RwnHistory \<Rightarrow> int \<Rightarrow> ('e, 's, 'w) EventListEntry list" where
  "event_list_at h t =
     (case HASH_FIND_INT (timepoint_hash_map h) t of None \<Rightarrow> [] | Some es \<Rightarrow> es)"

definition rwn_history_schedule ::
  "('e, 's, 'w) RwnHistory \<Rightarrow> int \<Rightarrow> int \<Rightarrow> 'e option
     \<Rightarrow> ('e, 's, 'w) RwnEventApplyFunc option \<Rightarrow> ('e, 'w) RwnEventDestroyFunc option
     \<Rightarrow> RwnEventHandle option \<times> ('e, 's, 'w) RwnHistory" where
  "rwn_history_schedule h at_timepoint at_phase evt evt_apply_func evt_destroy_func =
     (if at_timepoint < 0 then (None, h)
      else
        let evtentry = \<lparr>ident = next_ident h, user_event = evt,
                        user_event_apply_func = evt_apply_func,
                        user_event_destroy_func = evt_destroy_func,
                        phase = at_phase\<rparr>;
            event_list = LL_SORT cmp_event_list_entries_by_phase
                           (LL_APPEND (event_list_at h at_timepoint) evtentry);
            handle = \<lparr>timepoint = at_timepoint, event_list_elem = ident evtentry\<rparr>
        in (Some handle,
            h\<lparr>timepoint_hash_map :=
                 set_event_list (timepoint_hash_map h) at_timepoint event_list,
              event_handle_list := LL_APPEND (event_handle_list h) handle,
              next_ident := Suc (next_ident h)\<rparr>))"

definition rwn_history_count_events :: "('e, 's, 'w) RwnHistory \<Rightarrow> int \<Rightarrow> int" where
  "rwn_history_count_events h at_timepoint =
     (if at_timepoint < 0 then 0
      else case HASH_FIND_INT (timepoint_hash_map h) at_timepoint of
             Some es \<Rightarrow> LL_COUNT es
           | None \<Rightarrow> 0)"

definition is_event_handle_valid :: "('e, 's, 'w) RwnHistory \<Rightarrow> RwnEventHandle \<Rightarrow> bool" where
  "is_event_handle_valid h eh =
     (case HASH_FIND_INT (timepoint_hash_map h) (timepoint eh) of
        None \<Rightarrow> False
      | Some es \<Rightarrow>
          if es = [] then False
          else list_ex (\<lambda>evtentry. event_list_elem eh = ident evtentry) es)"

text \<open>
  \<^verbatim>\<open>rwn_history_unschedule\<close>. The \<^verbatim>\<open>assert\<close> aborts the program for a handle that is not
  valid. For a valid handle the map entry exists and \<^verbatim>\<open>eh->event_list_elem\<close> points to a
  member of its list, which is read back here by its address.
\<close>

definition rwn_history_unschedule ::
  "('e, 's, 'w) RwnHistory \<Rightarrow> RwnEventHandle \<Rightarrow> 'w
     \<Rightarrow> fault + (('e, 's, 'w) RwnHistory \<times> 'w \<times> call list)" where
  "rwn_history_unschedule h eh w =
     (if \<not> is_event_handle_valid h eh then Inl AssertionFailure
      else
        let handles = remove1 eh (event_handle_list h) in
        case HASH_FIND_INT (timepoint_hash_map h) (timepoint eh) of
          None \<Rightarrow> Inr (h\<lparr>event_handle_list := handles\<rparr>, w, [])
        | Some es \<Rightarrow>
            (case find (\<lambda>evtentry. ident evtentry = event_list_elem eh) es of
               None \<Rightarrow> Inl AssertionFailure
             | Some evtentry \<Rightarrow>
                 let (w', calls) =
                       (case user_event_destroy_func evtentry of
                          None \<Rightarrow> (w, [])
                        | Some destroy \<Rightarrow>
                            (destroy (user_event evtentry) w, [Destroyed (ident evtentry)]));
                     es' = LL_DELETE es (event_list_elem eh);
                     m' = (if LL_COUNT es' = 0
                           then HASH_DEL (timepoint_hash_map h) (timepoint eh)
                           else set_event_list (timepoint_hash_map h) (timepoint eh) es')
                 in Inr (h\<lparr>timepoint_hash_map := m', event_handle_list := handles\<rparr>,
                         w', calls)))"

text \<open>
  \<^verbatim>\<open>rwn_history_unschedule_all\<close>. \<^verbatim>\<open>LL_FOREACH_SAFE\<close> reads the successor of a handle before
  the body frees that handle, so the loop visits the handles that were registered when
  it started, in order.
\<close>

fun unschedule_all_loop ::
  "RwnEventHandle list \<Rightarrow> int \<Rightarrow> int \<Rightarrow> int \<times> ('e, 's, 'w) RwnHistory \<times> 'w \<times> call list
     \<Rightarrow> fault + (int \<times> ('e, 's, 'w) RwnHistory \<times> 'w \<times> call list)" where
  "unschedule_all_loop [] start_timepoint finish_timepoint acc = Inr acc"
| "unschedule_all_loop (eh # rest) start_timepoint finish_timepoint (evtcount, h, w, calls) =
     (if timepoint eh \<ge> start_timepoint \<and> timepoint eh \<le> finish_timepoint then
        (case rwn_history_unschedule h eh w of
           Inl f \<Rightarrow> Inl f
         | Inr (h', w', calls') \<Rightarrow>
             unschedule_all_loop rest start_timepoint finish_timepoint
               (evtcount + 1, h', w', calls @ calls'))
      else unschedule_all_loop rest start_timepoint finish_timepoint (evtcount, h, w, calls))"

definition rwn_history_unschedule_all ::
  "('e, 's, 'w) RwnHistory \<Rightarrow> int \<Rightarrow> int \<Rightarrow> 'w
     \<Rightarrow> fault + (int \<times> ('e, 's, 'w) RwnHistory \<times> 'w \<times> call list)" where
  "rwn_history_unschedule_all h start_timepoint finish_timepoint w =
     (if start_timepoint < 0 \<or> finish_timepoint < 0 then Inr (0, h, w, [])
      else if finish_timepoint < start_timepoint then Inr (0, h, w, [])
      else unschedule_all_loop (event_handle_list h) start_timepoint finish_timepoint
             (0, h, w, []))"

text \<open>
  \<^verbatim>\<open>rwn_history_get_events\<close> returns the count and the values it stored at
  \<^verbatim>\<open>user_eventv[0]\<close>, \<^verbatim>\<open>user_eventv[1]\<close>, ... in that order. The History is not changed.
\<close>

fun get_events_loop ::
  "('e, 's, 'w) EventListEntry list \<Rightarrow> int \<times> 'e option list \<Rightarrow> int \<times> 'e option list" where
  "get_events_loop [] acc = acc"
| "get_events_loop (evtentry # rest) (evtcount, user_eventv) =
     get_events_loop rest (evtcount + 1, user_eventv @ [user_event evtentry])"

definition rwn_history_get_events ::
  "('e, 's, 'w) RwnHistory \<Rightarrow> int \<Rightarrow> int \<times> 'e option list" where
  "rwn_history_get_events h at_timepoint =
     (if rwn_history_count_events h at_timepoint \<le> 0 then (0, [])
      else case HASH_FIND_INT (timepoint_hash_map h) at_timepoint of
             Some es \<Rightarrow> get_events_loop es (0, [])
           | None \<Rightarrow> (0, []))"

text \<open>
  \<^verbatim>\<open>rwn_history_destroy\<close>: the outer \<^verbatim>\<open>HASH_ITER\<close> over the map entries and the inner loop
  over the event list of each one. The handles are freed without any call to caller
  code, and the History does not exist afterwards, so only the caller's memory and the
  calls are returned.
\<close>

fun destroy_event_list ::
  "('e, 's, 'w) EventListEntry list \<Rightarrow> 'w \<times> call list \<Rightarrow> 'w \<times> call list" where
  "destroy_event_list [] acc = acc"
| "destroy_event_list (evtentry # rest) (w, calls) =
     (case user_event_destroy_func evtentry of
        None \<Rightarrow> destroy_event_list rest (w, calls)
      | Some destroy \<Rightarrow>
          destroy_event_list rest
            (destroy (user_event evtentry) w, calls @ [Destroyed (ident evtentry)]))"

fun destroy_map_entries ::
  "('e, 's, 'w) TimepointHashMap \<Rightarrow> 'w \<times> call list \<Rightarrow> 'w \<times> call list" where
  "destroy_map_entries [] acc = acc"
| "destroy_map_entries (entry # rest) acc =
     destroy_map_entries rest (destroy_event_list (snd entry) acc)"

definition rwn_history_destroy :: "('e, 's, 'w) RwnHistory \<Rightarrow> 'w \<Rightarrow> 'w \<times> call list" where
  "rwn_history_destroy h w = destroy_map_entries (timepoint_hash_map h) (w, [])"

subsection \<open>Replay\<close>

text \<open>The sequential branch: the loop over the event list of one timepoint.\<close>

fun apply_event_list ::
  "'s option \<Rightarrow> ('e, 's, 'w) EventListEntry list \<Rightarrow> int \<times> 'w \<times> call list
     \<Rightarrow> int \<times> 'w \<times> call list" where
  "apply_event_list state [] acc = acc"
| "apply_event_list state (evtentry # rest) (evtcount, w, calls) =
     (case (user_event evtentry, user_event_apply_func evtentry) of
        (Some e, Some apply) \<Rightarrow>
          apply_event_list state rest
            (evtcount + 1, apply e state w, calls @ [Applied (ident evtentry)])
      | _ \<Rightarrow> apply_event_list state rest (evtcount, w, calls))"

text \<open>
  The threaded branch. \<open>thread_list\<close> holds the entries whose threads have been created and
  not yet joined. \<^verbatim>\<open>pthread_create\<close> is taken to succeed (the code ignores its result).
  What the threads of one batch do to the caller's memory depends on the scheduler; the
  model fixes the schedule in which a thread runs \<^verbatim>\<open>thread_apply_event\<close> to completion as
  soon as it is created. The count and the sequence of \<open>Spawned\<close> and \<open>Joined\<close> calls do
  not depend on that choice, nor does which behaviours run, and each runs between the
  creation and the join of its thread. The statements about the threaded branch use
  nothing else: none of them is about the order in which the behaviours of one batch
  run, or about the caller's memory after a threaded replay.
\<close>

definition join_threads :: "nat list \<Rightarrow> call list" where
  "join_threads thread_list = map Joined thread_list"

fun dispatch_event_list ::
  "int \<Rightarrow> int \<Rightarrow> int \<Rightarrow> 's option \<Rightarrow> ('e, 's, 'w) EventListEntry list
     \<Rightarrow> nat list \<times> int \<times> 'w \<times> call list \<Rightarrow> nat list \<times> int \<times> 'w \<times> call list" where
  "dispatch_event_list max_threads i prev_phase state [] acc = acc"
| "dispatch_event_list max_threads i prev_phase state (evtentry # rest)
       (thread_list, evtcount, w, calls) =
     (case (user_event evtentry, user_event_apply_func evtentry) of
        (Some e, Some apply) \<Rightarrow>
          let current_phase = phase evtentry;
              thread_list_length = LL_COUNT thread_list;
              (thread_list1, calls1) =
                 (if thread_list_length \<ge> max_threads \<or> current_phase \<noteq> prev_phase
                  then ([], calls @ join_threads thread_list)
                  else (thread_list, calls))
          in dispatch_event_list max_threads i prev_phase state rest
               (thread_list1 @ [ident evtentry], evtcount + 1, apply e state w,
                calls1 @ [Spawned i current_phase (ident evtentry), Applied (ident evtentry)])
      | _ \<Rightarrow>
          dispatch_event_list max_threads i prev_phase state rest
            (thread_list, evtcount, w, calls))"

text \<open>The body of the loop over the timepoints, for a map entry with a non-empty list.\<close>

definition apply_timepoint ::
  "int \<Rightarrow> int \<Rightarrow> 's option \<Rightarrow> ('e, 's, 'w) EventListEntry list \<Rightarrow> int \<times> 'w \<times> call list
     \<Rightarrow> int \<times> 'w \<times> call list" where
  "apply_timepoint max_threads i state es acc =
     (if max_threads > 0 then
        (case es of
           [] \<Rightarrow> acc
         | first # _ \<Rightarrow>
             (case dispatch_event_list max_threads i (phase first) state es
                     ([], fst acc, fst (snd acc), snd (snd acc)) of
                (thread_list, evtcount, w, calls) \<Rightarrow>
                  (evtcount, w, calls @ join_threads thread_list)))
      else apply_event_list state es acc)"

text \<open>
  The loop \<^verbatim>\<open>for (i = start_timepoint; i <= finish_timepoint; ++i)\<close>. When the body has run
  for \<open>i = INT_MAX\<close> the increment overflows a signed \<^verbatim>\<open>int\<close>, which is undefined behaviour
  in C (with wrap-around the condition \<^verbatim>\<open>i <= finish_timepoint\<close> would stay true for ever).
\<close>

function state_delta_loop ::
  "('e, 's, 'w) TimepointHashMap \<Rightarrow> int \<Rightarrow> int \<Rightarrow> 's option \<Rightarrow> int \<Rightarrow> int \<times> 'w \<times> call list
     \<Rightarrow> fault + (int \<times> 'w \<times> call list)" where
  "state_delta_loop m i finish_timepoint state max_threads acc =
     (if i \<le> finish_timepoint then
        let acc' = (case HASH_FIND_INT m i of
                      None \<Rightarrow> acc
                    | Some es \<Rightarrow>
                        if es \<noteq> [] then apply_timepoint max_threads i state es acc else acc)
        in if i = INT_MAX then Inl SignedIntegerOverflow
           else state_delta_loop m (i + 1) finish_timepoint state max_threads acc'
      else Inr acc)"
  by pat_completeness auto
termination
  by (relation "measure (\<lambda>(m, i, finish_timepoint, state, max_threads, acc).
                   nat (finish_timepoint + 1 - i))") auto

definition rwn_history_state_delta ::
  "('e, 's, 'w) RwnHistory \<Rightarrow> int \<Rightarrow> int \<Rightarrow> 's option \<Rightarrow> int \<Rightarrow> 'w
     \<Rightarrow> fault + (int \<times> 'w \<times> call list)" where
  "rwn_history_state_delta h start_timepoint finish_timepoint state max_threads w =
     (if start_timepoint < 0 \<or> finish_timepoint < 0 then Inr (0, w, [])
      else if finish_timepoint < start_timepoint then Inr (0, w, [])
      else state_delta_loop (timepoint_hash_map h) start_timepoint finish_timepoint
             state max_threads (0, w, []))"

subsection \<open>The range operations of the earlier revision\<close>

text \<open>
  \<^verbatim>\<open>rewind/src/history.c\<close>: the replay is sequential, calls an apply behaviour only when
  \<^verbatim>\<open>state\<close> is not \<^verbatim>\<open>NULL\<close> either, and its loop runs while \<^verbatim>\<open>i < to_timepoint\<close>;
  \<^verbatim>\<open>rwn_history_unschedule_all\<close> selects the handles with
  \<^verbatim>\<open>eh->timepoint < to_timepoint\<close>. The counter stays below \<^verbatim>\<open>to_timepoint\<close>, so its
  increment cannot overflow.
\<close>

fun apply_event_list_earlier ::
  "'s option \<Rightarrow> ('e, 's, 'w) EventListEntry list \<Rightarrow> int \<times> 'w \<times> call list
     \<Rightarrow> int \<times> 'w \<times> call list" where
  "apply_event_list_earlier state [] acc = acc"
| "apply_event_list_earlier state (evtentry # rest) (evtcount, w, calls) =
     (case (state, user_event evtentry, user_event_apply_func evtentry) of
        (Some s, Some e, Some apply) \<Rightarrow>
          apply_event_list_earlier state rest
            (evtcount + 1, apply e state w, calls @ [Applied (ident evtentry)])
      | _ \<Rightarrow> apply_event_list_earlier state rest (evtcount, w, calls))"

function state_delta_loop_earlier ::
  "('e, 's, 'w) TimepointHashMap \<Rightarrow> int \<Rightarrow> int \<Rightarrow> 's option \<Rightarrow> int \<times> 'w \<times> call list
     \<Rightarrow> int \<times> 'w \<times> call list" where
  "state_delta_loop_earlier m i to_timepoint state acc =
     (if i < to_timepoint then
        state_delta_loop_earlier m (i + 1) to_timepoint state
          (case HASH_FIND_INT m i of
             None \<Rightarrow> acc
           | Some es \<Rightarrow> apply_event_list_earlier state es acc)
      else acc)"
  by pat_completeness auto
termination
  by (relation "measure (\<lambda>(m, i, to_timepoint, state, acc). nat (to_timepoint - i))") auto

definition rwn_history_state_delta_earlier ::
  "('e, 's, 'w) RwnHistory \<Rightarrow> int \<Rightarrow> int \<Rightarrow> 's option \<Rightarrow> 'w \<Rightarrow> int \<times> 'w \<times> call list" where
  "rwn_history_state_delta_earlier h from_timepoint to_timepoint state w =
     (if from_timepoint < 0 \<or> to_timepoint < 0 then (0, w, [])
      else if to_timepoint < from_timepoint then (0, w, [])
      else state_delta_loop_earlier (timepoint_hash_map h) from_timepoint to_timepoint state
             (0, w, []))"

fun unschedule_all_loop_earlier ::
  "RwnEventHandle list \<Rightarrow> int \<Rightarrow> int \<Rightarrow> int \<times> ('e, 's, 'w) RwnHistory \<times> 'w \<times> call list
     \<Rightarrow> fault + (int \<times> ('e, 's, 'w) RwnHistory \<times> 'w \<times> call list)" where
  "unschedule_all_loop_earlier [] from_timepoint to_timepoint acc = Inr acc"
| "unschedule_all_loop_earlier (eh # rest) from_timepoint to_timepoint (evtcount, h, w, calls) =
     (if timepoint eh \<ge> from_timepoint \<and> timepoint eh < to_timepoint then
        (case rwn_history_unschedule h eh w of
           Inl f \<Rightarrow> Inl f
         | Inr (h', w', calls') \<Rightarrow>
             unschedule_all_loop_earlier rest from_timepoint to_timepoint
               (evtcount + 1, h', w', calls @ calls'))
      else unschedule_all_loop_earlier rest from_timepoint to_timepoint (evtcount, h, w, calls))"

definition rwn_history_unschedule_all_earlier ::
  "('e, 's, 'w) RwnHistory \<Rightarrow> int \<Rightarrow> int \<Rightarrow> 'w
     \<Rightarrow> fault + (int \<times> ('e, 's, 'w) RwnHistory \<times> 'w \<times> call list)" where
  "rwn_history_unschedule_all_earlier h from_timepoint to_timepoint w =
     (if from_timepoint < 0 \<or> to_timepoint < 0 then Inr (0, h, w, [])
      else if to_timepoint < from_timepoint then Inr (0, h, w, [])
      else unschedule_all_loop_earlier (event_handle_list h) from_timepoint to_timepoint
             (0, h, w, []))"

declare state_delta_loop.simps [simp del]

declare state_delta_loop_earlier.simps [simp del]

section \<open>Notions used in the statements\<close>

text \<open>The histories a caller can build: from \<^verbatim>\<open>rwn_history_create\<close> by the mutating operations.\<close>

inductive reachable :: "('e, 's, 'w) RwnHistory \<Rightarrow> bool" where
  reachable_create: "reachable rwn_history_create"
| reachable_schedule:
    "reachable h \<Longrightarrow>
     reachable (snd (rwn_history_schedule h at_timepoint at_phase evt evt_apply_func
                       evt_destroy_func))"
| reachable_unschedule:
    "reachable h \<Longrightarrow> rwn_history_unschedule h eh w = Inr (h', w', calls) \<Longrightarrow> reachable h'"
| reachable_unschedule_all:
    "reachable h \<Longrightarrow>
     rwn_history_unschedule_all h start_timepoint finish_timepoint w = Inr (n, h', w', calls) \<Longrightarrow>
     reachable h'"

text \<open>
  The order inside a bucket: by phase, and among entries of one phase by the order in
  which they were scheduled.
\<close>

definition scheduled_before ::
  "('e, 's, 'w) EventListEntry \<Rightarrow> ('e, 's, 'w) EventListEntry \<Rightarrow> bool" where
  "scheduled_before a b \<longleftrightarrow> phase a < phase b \<or> (phase a = phase b \<and> ident a < ident b)"

definition phase_ordered :: "('e, 's, 'w) EventListEntry list \<Rightarrow> bool" where
  "phase_ordered es \<longleftrightarrow>
     sorted (map phase es) \<and>
     (\<forall>k. sorted_wrt (<) (map ident (filter (\<lambda>e. phase e = k) es)))"

definition idents_at :: "('e, 's, 'w) RwnHistory \<Rightarrow> int \<Rightarrow> nat set" where
  "idents_at h t = ident ` set (event_list_at h t)"

text \<open>The invariant of the representation.\<close>

definition wf_history :: "('e, 's, 'w) RwnHistory \<Rightarrow> bool" where
  "wf_history h \<longleftrightarrow>
     distinct (map fst (timepoint_hash_map h)) \<and>
     (\<forall>t es. map_of (timepoint_hash_map h) t = Some es \<longrightarrow> 0 \<le> t \<and> es \<noteq> []) \<and>
     (\<forall>t. phase_ordered (event_list_at h t)) \<and>
     (\<forall>t. distinct (map ident (event_list_at h t))) \<and>
     (\<forall>t u. t \<noteq> u \<longrightarrow> idents_at h t \<inter> idents_at h u = {}) \<and>
     (\<forall>t. \<forall>i \<in> idents_at h t. i < next_ident h) \<and>
     distinct (event_handle_list h) \<and>
     (\<forall>eh. eh \<in> set (event_handle_list h) \<longleftrightarrow>
            event_list_elem eh \<in> idents_at h (timepoint eh))"

text \<open>
  The entries that replay runs: those with a payload and an apply behaviour, for the
  timepoints of a range in ascending order and in bucket order inside a timepoint.
\<close>

definition applicable :: "('e, 's, 'w) EventListEntry \<Rightarrow> bool" where
  "applicable evtentry \<longleftrightarrow>
     user_event evtentry \<noteq> None \<and> user_event_apply_func evtentry \<noteq> None"

definition replayed ::
  "('e, 's, 'w) TimepointHashMap \<Rightarrow> int \<Rightarrow> int \<Rightarrow> ('e, 's, 'w) EventListEntry list" where
  "replayed m start_timepoint finish_timepoint =
     concat (map (\<lambda>t. filter applicable (case map_of m t of None \<Rightarrow> [] | Some es \<Rightarrow> es))
               [start_timepoint..finish_timepoint])"

fun applied_idents :: "call list \<Rightarrow> nat list" where
  "applied_idents [] = []"
| "applied_idents (Applied i # cs) = i # applied_idents cs"
| "applied_idents (c # cs) = applied_idents cs"


text \<open>The tasks for which a thread was created, in the order of creation.\<close>

fun spawned_idents :: "call list \<Rightarrow> nat list" where
  "spawned_idents [] = []"
| "spawned_idents (Spawned t p i # cs) = i # spawned_idents cs"
| "spawned_idents (c # cs) = spawned_idents cs"

text \<open>
  The entries of a History, bucket after bucket in the order of the map, and what the
  teardown of one entry does to the caller's memory: its destroy behaviour, called with
  its payload (\<^verbatim>\<open>NULL\<close> or not), when it has one.
\<close>

definition scheduled_entries ::
  "('e, 's, 'w) RwnHistory \<Rightarrow> ('e, 's, 'w) EventListEntry list" where
  "scheduled_entries h = concat (map snd (timepoint_hash_map h))"

definition run_destroy :: "('e, 's, 'w) EventListEntry \<Rightarrow> 'w \<Rightarrow> 'w" where
  "run_destroy evtentry w =
     (case user_event_destroy_func evtentry of
        None \<Rightarrow> w
      | Some destroy \<Rightarrow> destroy (user_event evtentry) w)"

definition in_range :: "int \<Rightarrow> int \<Rightarrow> RwnEventHandle \<Rightarrow> bool" where
  "in_range start_timepoint finish_timepoint eh \<longleftrightarrow>
     start_timepoint \<le> timepoint eh \<and> timepoint eh \<le> finish_timepoint"

text \<open>
  A monitor for the calls of a threaded replay. Its state is the list of tasks in flight
  (created and not joined), each with its timepoint and phase, and the timepoint and
  phase of the task created last. It rejects (\<^term>\<open>None\<close>) a \<open>Spawned\<close> call made while
  \<open>max_threads\<close> tasks are in flight, or while a task of another timepoint or phase is in
  flight, or for a timepoint and phase below those of the task created before; and an
  \<open>Applied\<close> call for a task that is not in flight. The proof of the barrier runs the
  monitor next to the replay.
\<close>

type_synonym task = "int \<times> int \<times> nat"

fun barrier_step ::
  "int \<Rightarrow> (task list \<times> (int \<times> int) option) option \<Rightarrow> call
     \<Rightarrow> (task list \<times> (int \<times> int) option) option" where
  "barrier_step max_threads None c = None"
| "barrier_step max_threads (Some (in_flight, latest)) (Spawned t p i) =
     (if int (length in_flight) < max_threads \<and>
         list_all (\<lambda>(t', p', j). t' = t \<and> p' = p) in_flight \<and>
         (case latest of None \<Rightarrow> True | Some (t', p') \<Rightarrow> t' < t \<or> (t' = t \<and> p' \<le> p))
      then Some (in_flight @ [(t, p, i)], Some (t, p))
      else None)"
| "barrier_step max_threads (Some (in_flight, latest)) (Joined i) =
     Some (filter (\<lambda>(t, p, j). j \<noteq> i) in_flight, latest)"
| "barrier_step max_threads (Some (in_flight, latest)) (Applied i) =
     (if list_ex (\<lambda>(t, p, j). j = i) in_flight then Some (in_flight, latest) else None)"
| "barrier_step max_threads (Some (in_flight, latest)) (Destroyed i) = None"

definition barrier_monitor ::
  "int \<Rightarrow> call list \<Rightarrow> (task list \<times> (int \<times> int) option) option" where
  "barrier_monitor max_threads calls = foldl (barrier_step max_threads) (Some ([], None)) calls"

text \<open>
  Invariants of the monitor state along a replay: the task created last is of an earlier
  timepoint, or of the current timepoint \<open>i\<close> and of a phase not above the given phases.
\<close>

definition latest_before :: "(int \<times> int) option \<Rightarrow> int \<Rightarrow> int set \<Rightarrow> bool" where
  "latest_before latest i ps \<longleftrightarrow>
     (case latest of None \<Rightarrow> True | Some (t, p) \<Rightarrow> t < i \<or> (t = i \<and> (\<forall>q \<in> ps. p \<le> q)))"

definition latest_below :: "(int \<times> int) option \<Rightarrow> int \<Rightarrow> bool" where
  "latest_below latest i \<longleftrightarrow> (case latest of None \<Rightarrow> True | Some (t, p) \<Rightarrow> t < i)"

text \<open>
  The tasks in flight after a sequence of calls, read off the calls alone: a task is in
  flight from its \<open>Spawned\<close> call to its \<open>Joined\<close> call.
\<close>

fun in_flight_step :: "nat list \<Rightarrow> call \<Rightarrow> nat list" where
  "in_flight_step ths (Spawned t p i) = ths @ [i]"
| "in_flight_step ths (Joined i) = removeAll i ths"
| "in_flight_step ths c = ths"

definition in_flight_after :: "call list \<Rightarrow> nat list" where
  "in_flight_after calls = foldl in_flight_step [] calls"

text \<open>The entry that a successful schedule allocates.\<close>

definition new_entry ::
  "('e, 's, 'w) RwnHistory \<Rightarrow> int \<Rightarrow> 'e option \<Rightarrow> ('e, 's, 'w) RwnEventApplyFunc option
     \<Rightarrow> ('e, 'w) RwnEventDestroyFunc option \<Rightarrow> ('e, 's, 'w) EventListEntry" where
  "new_entry h at_phase evt evt_apply_func evt_destroy_func =
     \<lparr>ident = next_ident h, user_event = evt, user_event_apply_func = evt_apply_func,
      user_event_destroy_func = evt_destroy_func, phase = at_phase\<rparr>"

text \<open>The History after a successful unschedule, given as a function of the old one.\<close>

definition unscheduled ::
  "('e, 's, 'w) RwnHistory \<Rightarrow> RwnEventHandle \<Rightarrow> ('e, 's, 'w) RwnHistory" where
  "unscheduled h eh =
     (let es' = filter (\<lambda>e. ident e \<noteq> event_list_elem eh) (event_list_at h (timepoint eh))
      in h\<lparr>timepoint_hash_map :=
             (if es' = [] then HASH_DEL (timepoint_hash_map h) (timepoint eh)
              else set_event_list (timepoint_hash_map h) (timepoint eh) es'),
           event_handle_list := remove1 eh (event_handle_list h)\<rparr>)"

text \<open>The handle of an entry stored at a timepoint.\<close>

definition handle_of :: "int \<Rightarrow> ('e, 's, 'w) EventListEntry \<Rightarrow> RwnEventHandle" where
  "handle_of t e = \<lparr>timepoint = t, event_list_elem = ident e\<rparr>"

section \<open>The behaviours and histories of the test suite\<close>

text \<open>
  From \<^verbatim>\<open>tests/tst_history.c\<close>: the payload of \<^verbatim>\<open>test_event_incr\<close> and \<^verbatim>\<open>test_event_mult\<close> is
  its single \<^verbatim>\<open>int\<close> field, and the caller's memory is the \<^verbatim>\<open>value\<close> field of the one
  \<^verbatim>\<open>test_state\<close> object (a \<^verbatim>\<open>float\<close> that holds small integers exactly). The behaviours
  dereference \<^verbatim>\<open>s\<close>; the tests never hand them \<^verbatim>\<open>NULL\<close>, for which the model leaves the
  value alone. \<^verbatim>\<open>free\<close> does not touch the value.
\<close>

definition test_event_incr_apply :: "(int, unit, int) RwnEventApplyFunc" where
  "test_event_incr_apply e s w = (case s of None \<Rightarrow> w | Some u \<Rightarrow> w + e)"

definition test_event_mult_apply :: "(int, unit, int) RwnEventApplyFunc" where
  "test_event_mult_apply e s w = (case s of None \<Rightarrow> w | Some u \<Rightarrow> w * e)"

definition free :: "(int, int) RwnEventDestroyFunc" where
  "free e w = w"

text \<open>The History of the test \<^verbatim>\<open>scheduled_events_applied_by_phases\<close>.\<close>

definition phases_history :: "(int, unit, int) RwnHistory" where
  "phases_history =
     (let h0 = rwn_history_create;
          h1 = snd (rwn_history_schedule h0 0 1 (Some 1) (Some test_event_incr_apply) (Some free));
          h2 = snd (rwn_history_schedule h1 0 0 (Some 1) (Some test_event_mult_apply) (Some free));
          h3 = snd (rwn_history_schedule h2 0 1 (Some 2) (Some test_event_incr_apply) (Some free));
          h4 = snd (rwn_history_schedule h3 0 0 (Some 2) (Some test_event_mult_apply) (Some free))
      in h4)"

text \<open>A History with one event at timepoint 0 that has an apply behaviour and a payload.\<close>

definition single_history :: "(int, unit, int) RwnHistory" where
  "single_history =
     snd (rwn_history_schedule rwn_history_create 0 0 (Some 1) (Some test_event_incr_apply)
            (Some free))"


text \<open>
  The History of the test \<^verbatim>\<open>destroy_destroys_events_with_callback\<close>. The payloads are the
  addresses 0 and 1 of two \<^verbatim>\<open>test_event_alive\<close> objects, the caller's memory is the list of
  their \<^verbatim>\<open>alive\<close> fields, and \<^verbatim>\<open>test_event_alive_destroy\<close> clears the field of the object it
  is given.
\<close>

definition test_event_alive_destroy :: "(nat, bool list) RwnEventDestroyFunc" where
  "test_event_alive_destroy e w = (case e of None \<Rightarrow> w | Some a \<Rightarrow> w[a := False])"

definition alive_history :: "(nat, unit, bool list) RwnHistory" where
  "alive_history =
     (let h0 = rwn_history_create;
          h1 = snd (rwn_history_schedule h0 0 0 (Some 0) None (Some test_event_alive_destroy));
          h2 = snd (rwn_history_schedule h1 1 0 (Some 1) None (Some test_event_alive_destroy))
      in h2)"

section \<open>Basic facts about the loops\<close>

lemma LL_SORT_insert_phase:
  "LL_SORT_insert cmp_event_list_entries_by_phase x ys = insort_key phase x ys"
  by (induction ys) (auto simp: cmp_event_list_entries_by_phase_def)

lemma LL_SORT_phase: "LL_SORT cmp_event_list_entries_by_phase xs = sort_key phase xs"
  by (induction xs) (simp_all add: LL_SORT_def LL_SORT_insert_phase)

lemma get_events_loop_eq:
  "get_events_loop es (n, buf) = (n + int (length es), buf @ map user_event es)"
  by (induction es arbitrary: n buf) auto

lemma count_events_eq:
  "0 \<le> t \<Longrightarrow> rwn_history_count_events h t = int (length (event_list_at h t))"
  by (simp add: rwn_history_count_events_def event_list_at_def LL_COUNT_def split: option.split)

lemma get_events_eq:
  "rwn_history_get_events h t =
     (rwn_history_count_events h t, map user_event (if t < 0 then [] else event_list_at h t))"
  by (auto simp: rwn_history_get_events_def rwn_history_count_events_def event_list_at_def
      LL_COUNT_def get_events_loop_eq split: option.split)

lemma applied_idents_append [simp]:
  "applied_idents (xs @ ys) = applied_idents xs @ applied_idents ys"
  by (induction xs rule: applied_idents.induct) auto

lemma applied_idents_join [simp]: "applied_idents (join_threads ths) = []"
  by (induction ths) (auto simp: join_threads_def)

lemma applied_idents_map_Applied [simp]:
  "applied_idents (map (\<lambda>e. Applied (f e)) es) = map f es"
  by (induction es) auto

lemma apply_event_list_count:
  "fst (apply_event_list state es (n, w, calls)) = n + int (length (filter applicable es))"
  by (induction es arbitrary: n w calls) (auto simp: applicable_def split: option.split)

lemma apply_event_list_calls:
  "snd (snd (apply_event_list state es (n, w, calls))) =
     calls @ map (\<lambda>e. Applied (ident e)) (filter applicable es)"
  by (induction es arbitrary: n w calls) (auto simp: applicable_def split: option.split)

lemma dispatch_event_list_count:
  "fst (snd (dispatch_event_list mt i pp state es (ths, n, w, calls))) =
     n + int (length (filter applicable es))"
  by (induction es arbitrary: ths n w calls)
     (auto simp: applicable_def Let_def split: option.split)

lemma dispatch_event_list_applied:
  "applied_idents (snd (snd (snd (dispatch_event_list mt i pp state es (ths, n, w, calls))))) =
     applied_idents calls @ map ident (filter applicable es)"
  by (induction es arbitrary: ths n w calls)
     (auto simp: applicable_def Let_def split: option.split)

lemma apply_timepoint_threads:
  "0 < mt \<Longrightarrow> es = e # es' \<Longrightarrow>
   dispatch_event_list mt i (phase e) state es ([], n, w, calls) = (ths', n', w', calls') \<Longrightarrow>
   apply_timepoint mt i state es (n, w, calls) = (n', w', calls' @ join_threads ths')"
  by (simp add: apply_timepoint_def del: dispatch_event_list.simps)

lemma apply_timepoint_count:
  "fst (apply_timepoint mt i state es (n, w, calls)) = n + int (length (filter applicable es))"
proof (cases "mt > 0")
  case False
  then show ?thesis by (simp add: apply_timepoint_def apply_event_list_count)
next
  case True
  show ?thesis
  proof (cases es)
    case Nil
    then show ?thesis using True by (simp add: apply_timepoint_def)
  next
    case (Cons e es')
    obtain ths' n' w' calls' where
      d: "dispatch_event_list mt i (phase e) state es ([], n, w, calls) = (ths', n', w', calls')"
      using prod_cases4 by blast
    have "n' = n + int (length (filter applicable es))"
      using dispatch_event_list_count [of mt i "phase e" state es "[]" n w calls]
      unfolding d by simp
    then show ?thesis
      by (simp add: apply_timepoint_threads [OF True Cons d])
  qed
qed

lemma apply_timepoint_applied:
  "applied_idents (snd (snd (apply_timepoint mt i state es (n, w, calls)))) =
     applied_idents calls @ map ident (filter applicable es)"
proof (cases "mt > 0")
  case False
  then show ?thesis by (simp add: apply_timepoint_def apply_event_list_calls)
next
  case True
  show ?thesis
  proof (cases es)
    case Nil
    then show ?thesis using True by (simp add: apply_timepoint_def)
  next
    case (Cons e es')
    obtain ths' n' w' calls' where
      d: "dispatch_event_list mt i (phase e) state es ([], n, w, calls) = (ths', n', w', calls')"
      using prod_cases4 by blast
    have "applied_idents calls' = applied_idents calls @ map ident (filter applicable es)"
      using dispatch_event_list_applied [of mt i "phase e" state es "[]" n w calls]
      unfolding d by simp
    then show ?thesis
      by (simp add: apply_timepoint_threads [OF True Cons d])
  qed
qed

lemma replayed_rec:
  "i \<le> f \<Longrightarrow> replayed m i f =
     filter applicable (case map_of m i of None \<Rightarrow> [] | Some es \<Rightarrow> es) @ replayed m (i + 1) f"
  by (simp add: replayed_def upto_rec1)

lemma replayed_empty: "f < i \<Longrightarrow> replayed m i f = []"
  by (simp add: replayed_def)

lemma state_delta_loop_returns:
  "f < INT_MAX \<Longrightarrow> \<exists>r. state_delta_loop m i f state mt acc = Inr r"
proof (induction m i f state mt acc rule: state_delta_loop.induct)
  case (1 m i f state mt acc)
  show ?case
  proof (cases "i \<le> f")
    case False
    then have "state_delta_loop m i f state mt acc = Inr acc"
      by (simp add: state_delta_loop.simps [of m i f])
    then show ?thesis by blast
  next
    case True
    with "1.prems" have ne: "i \<noteq> INT_MAX" by simp
    show ?thesis
      using True ne "1.IH" [OF True refl ne "1.prems"]
      by (subst state_delta_loop.simps) (simp add: Let_def)
  qed
qed

lemma state_delta_loop_result:
  "state_delta_loop m i f state mt acc = Inr r \<Longrightarrow>
     fst r = fst acc + int (length (replayed m i f)) \<and>
     applied_idents (snd (snd r)) = applied_idents (snd (snd acc)) @ map ident (replayed m i f)"
proof (induction m i f state mt acc rule: state_delta_loop.induct)
  case (1 m i f state mt acc)
  show ?case
  proof (cases "i \<le> f")
    case False
    then show ?thesis using "1.prems"
      by (auto simp: state_delta_loop.simps [of m i f] replayed_empty)
  next
    case True
    obtain n w calls where acc: "acc = (n, w, calls)" using prod_cases3 by blast
    define es where "es = (case map_of m i of None \<Rightarrow> [] | Some es \<Rightarrow> es)"
    define acc' where "acc' = (case HASH_FIND_INT m i of None \<Rightarrow> acc
        | Some es \<Rightarrow> if es \<noteq> [] then apply_timepoint mt i state es acc else acc)"
    have n1: "fst acc' = n + int (length (filter applicable es))"
      unfolding acc'_def es_def HASH_FIND_INT_def acc
      by (simp add: apply_timepoint_count split: option.split)
    have c1: "applied_idents (snd (snd acc')) =
                applied_idents calls @ map ident (filter applicable es)"
      unfolding acc'_def es_def HASH_FIND_INT_def acc
      by (simp add: apply_timepoint_applied split: option.split)
    have ne: "i \<noteq> INT_MAX"
      and rec: "state_delta_loop m (i + 1) f state mt acc' = Inr r"
      using "1.prems" True
      by (auto simp: state_delta_loop.simps [of m i f] Let_def acc'_def split: if_splits)
    have "fst r = fst acc' + int (length (replayed m (i + 1) f)) \<and>
          applied_idents (snd (snd r)) =
            applied_idents (snd (snd acc')) @ map ident (replayed m (i + 1) f)"
      using "1.IH" [OF True _ ne, of acc'] rec
      by (simp add: acc'_def)
    then show ?thesis
      using n1 c1 True by (simp add: replayed_rec es_def acc)
  qed
qed



lemma spawned_idents_append [simp]:
  "spawned_idents (xs @ ys) = spawned_idents xs @ spawned_idents ys"
  by (induction xs rule: spawned_idents.induct) auto

lemma spawned_idents_join [simp]: "spawned_idents (join_threads ths) = []"
  by (induction ths) (auto simp: join_threads_def)




section \<open>Evaluation of the definitions on concrete histories\<close>

lemma phases_history_eval:
  "phases_history =
     \<lparr>timepoint_hash_map =
        [(0, [\<lparr>ident = 1, user_event = Some 1,
                user_event_apply_func = Some test_event_mult_apply,
                user_event_destroy_func = Some free, phase = 0\<rparr>,
              \<lparr>ident = 3, user_event = Some 2,
                user_event_apply_func = Some test_event_mult_apply,
                user_event_destroy_func = Some free, phase = 0\<rparr>,
              \<lparr>ident = 0, user_event = Some 1,
                user_event_apply_func = Some test_event_incr_apply,
                user_event_destroy_func = Some free, phase = 1\<rparr>,
              \<lparr>ident = 2, user_event = Some 2,
                user_event_apply_func = Some test_event_incr_apply,
                user_event_destroy_func = Some free, phase = 1\<rparr>])],
      event_handle_list =
        [\<lparr>timepoint = 0, event_list_elem = 0\<rparr>, \<lparr>timepoint = 0, event_list_elem = 1\<rparr>,
         \<lparr>timepoint = 0, event_list_elem = 2\<rparr>, \<lparr>timepoint = 0, event_list_elem = 3\<rparr>],
      next_ident = 4\<rparr>"
  by (simp add: phases_history_def rwn_history_schedule_def rwn_history_create_def
      event_list_at_def HASH_FIND_INT_def set_event_list_def LL_APPEND_def LL_SORT_def
      cmp_event_list_entries_by_phase_def Let_def)

lemma single_history_eval:
  "single_history =
     \<lparr>timepoint_hash_map =
        [(0, [\<lparr>ident = 0, user_event = Some 1,
                user_event_apply_func = Some test_event_incr_apply,
                user_event_destroy_func = Some free, phase = 0\<rparr>])],
      event_handle_list = [\<lparr>timepoint = 0, event_list_elem = 0\<rparr>],
      next_ident = 1\<rparr>"
  by (simp add: single_history_def rwn_history_schedule_def rwn_history_create_def
      event_list_at_def HASH_FIND_INT_def set_event_list_def LL_APPEND_def LL_SORT_def Let_def)


lemma alive_history_eval:
  "alive_history =
     \<lparr>timepoint_hash_map =
        [(0, [\<lparr>ident = 0, user_event = Some 0, user_event_apply_func = None,
                user_event_destroy_func = Some test_event_alive_destroy, phase = 0\<rparr>]),
         (1, [\<lparr>ident = 1, user_event = Some 1, user_event_apply_func = None,
                user_event_destroy_func = Some test_event_alive_destroy, phase = 0\<rparr>])],
      event_handle_list =
        [\<lparr>timepoint = 0, event_list_elem = 0\<rparr>, \<lparr>timepoint = 1, event_list_elem = 1\<rparr>],
      next_ident = 2\<rparr>"
  by (simp add: alive_history_def rwn_history_schedule_def rwn_history_create_def
      event_list_at_def HASH_FIND_INT_def set_event_list_def LL_APPEND_def LL_SORT_def Let_def)

lemma state_delta_at_zero:
  "rwn_history_state_delta h 0 0 state max_threads w =
     (case map_of (timepoint_hash_map h) 0 of
        None \<Rightarrow> Inr (0, w, [])
      | Some es \<Rightarrow>
          if es \<noteq> [] then Inr (apply_timepoint max_threads 0 state es (0, w, []))
          else Inr (0, w, []))"
  by (simp add: rwn_history_state_delta_def state_delta_loop.simps [of _ 0 0]
      state_delta_loop.simps [of _ 1 0] HASH_FIND_INT_def INT_MAX_def split: option.split)

section \<open>The ordering example of the test suite\<close>

text \<open>
  C1. The four events E1 (phase 1, add 1), E2 (phase 0, multiply by 1), E3 (phase 1,
  add 2), E4 (phase 0, multiply by 2), scheduled in this order at timepoint 0, have the
  addresses 0, 1, 2, 3. The sequential replay of the range from 0 to 0 applies E2, E4,
  E1, E3 in this order and returns 4; it turns the state 0 into 3 and the state 1 into 5.
\<close>

theorem phases_example_order_and_result:
  "rwn_history_state_delta phases_history 0 0 (Some ()) 0 0 =
     Inr (4, 3, [Applied 1, Applied 3, Applied 0, Applied 2]) \<and>
   rwn_history_state_delta phases_history 0 0 (Some ()) 0 1 =
     Inr (4, 5, [Applied 1, Applied 3, Applied 0, Applied 2])"
  by (simp add: state_delta_at_zero phases_history_eval apply_timepoint_def
      test_event_incr_apply_def test_event_mult_apply_def)

section \<open>Invalid timepoints\<close>

text \<open>
  C6. Scheduling at a negative timepoint returns no handle and leaves the History as it
  was, so the count of every timepoint is unchanged; and the count of a negative
  timepoint, and of a timepoint that has no map entry, is 0.
\<close>

theorem schedule_negative_timepoint_rejected:
  "(t < 0 \<longrightarrow>
      fst (rwn_history_schedule h t at_phase evt evt_apply_func evt_destroy_func) = None \<and>
      (\<forall>u. rwn_history_count_events
             (snd (rwn_history_schedule h t at_phase evt evt_apply_func evt_destroy_func)) u =
           rwn_history_count_events h u)) \<and>
   (u < 0 \<or> HASH_FIND_INT (timepoint_hash_map h) u = None \<longrightarrow>
      rwn_history_count_events h u = 0)"
  by (auto simp: rwn_history_schedule_def rwn_history_count_events_def)

theorem schedule_negative_timepoint_rejected_witness:
  "(- 1 :: int) < 0 \<and> (- 3 :: int) < 0 \<and>
   fst (rwn_history_schedule single_history (- 1) 0 (Some 5) (Some test_event_incr_apply)
          (Some free)) = None \<and>
   (\<forall>u. rwn_history_count_events
          (snd (rwn_history_schedule single_history (- 1) 0 (Some 5)
                  (Some test_event_incr_apply) (Some free))) u =
        rwn_history_count_events single_history u) \<and>
   rwn_history_count_events single_history (- 3) = 0"
  using schedule_negative_timepoint_rejected
          [of "- 1" single_history 0 "Some 5" "Some test_event_incr_apply" "Some free" "- 3"]
  by simp

section \<open>Where the earlier revision differs\<close>

lemma apply_event_list_earlier_null_state:
  "apply_event_list_earlier None es acc = acc"
proof (induction es)
  case Nil
  show ?case by simp
next
  case (Cons e es)
  obtain n w calls where "acc = (n, w, calls)" using prod_cases3 by blast
  then show ?case using Cons by simp
qed

lemma state_delta_loop_earlier_null_state:
  "state = None \<Longrightarrow> state_delta_loop_earlier m i to_timepoint state acc = acc"
proof (induction m i to_timepoint state acc rule: state_delta_loop_earlier.induct)
  case (1 m i to_timepoint state acc)
  show ?case
  proof (cases "i < to_timepoint")
    case True
    have "(case HASH_FIND_INT m i of None \<Rightarrow> acc
           | Some es \<Rightarrow> apply_event_list_earlier state es acc) = acc"
      using "1.prems" by (simp add: apply_event_list_earlier_null_state split: option.split)
    then show ?thesis
      using "1.IH" [OF True "1.prems"] True
      by (subst state_delta_loop_earlier.simps) simp
  next
    case False
    then show ?thesis by (subst state_delta_loop_earlier.simps) simp
  qed
qed

lemma state_delta_earlier_null_state:
  "rwn_history_state_delta_earlier h from_timepoint to_timepoint None w = (0, w, [])"
  by (simp add: rwn_history_state_delta_earlier_def state_delta_loop_earlier_null_state)

lemma state_delta_earlier_excludes_finish:
  "rwn_history_state_delta_earlier h t t state w = (0, w, [])"
  by (simp add: rwn_history_state_delta_earlier_def state_delta_loop_earlier.simps [of _ t t])

lemma unschedule_all_loop_earlier_empty_range:
  "unschedule_all_loop_earlier ehs t t (n, h, w, calls) = Inr (n, h, w, calls)"
  by (induction ehs) auto

lemma unschedule_all_earlier_excludes_finish:
  "rwn_history_unschedule_all_earlier h t t w = Inr (0, h, w, [])"
  by (simp add: rwn_history_unschedule_all_earlier_def unschedule_all_loop_earlier_empty_range)

section \<open>Replay over a range\<close>

lemma set_replayed:
  "set (replayed m i f) =
     {e. \<exists>t. i \<le> t \<and> t \<le> f \<and> applicable e \<and>
           e \<in> set (case map_of m t of None \<Rightarrow> [] | Some es \<Rightarrow> es)}"
  by (auto simp: replayed_def)

lemma state_delta_valid_range:
  assumes "0 \<le> start" "start \<le> finish" "finish < INT_MAX"
  shows "\<exists>n w' calls.
           rwn_history_state_delta h start finish state mt w = Inr (n, w', calls) \<and>
           n = int (length (replayed (timepoint_hash_map h) start finish)) \<and>
           applied_idents calls = map ident (replayed (timepoint_hash_map h) start finish)"
proof -
  obtain r where r: "state_delta_loop (timepoint_hash_map h) start finish state mt (0, w, []) = Inr r"
    using state_delta_loop_returns [OF assms(3)] by blast
  obtain n w' calls where t: "r = (n, w', calls)" using prod_cases3 by blast
  have "rwn_history_state_delta h start finish state mt w = Inr (n, w', calls)"
    using assms r t by (simp add: rwn_history_state_delta_def)
  moreover have "n = int (length (replayed (timepoint_hash_map h) start finish))"
    and "applied_idents calls = map ident (replayed (timepoint_hash_map h) start finish)"
    using state_delta_loop_result [OF r] t by simp_all
  ultimately show ?thesis by blast
qed


text \<open>
  The end of the range of a C \<^verbatim>\<open>int\<close>: the body runs for \<open>i = INT_MAX\<close> and the increment
  that follows overflows.
\<close>

lemma state_delta_overflows_at_INT_MAX:
  "rwn_history_state_delta h INT_MAX INT_MAX state max_threads w = Inl SignedIntegerOverflow"
  by (simp add: rwn_history_state_delta_def state_delta_loop.simps [of _ INT_MAX INT_MAX])
     (simp add: INT_MAX_def)




section \<open>A null state\<close>

text \<open>
  C3. Neither branch of the five-argument \<^verbatim>\<open>rwn_history_state_delta\<close> looks at \<^verbatim>\<open>state\<close>.
  With one event at timepoint 0 that has a payload and an apply behaviour, the
  sequential replay with a \<^verbatim>\<open>NULL\<close> state calls the behaviour with the \<^verbatim>\<open>NULL\<close> state and
  returns 1. The earlier revision of the function, on the same History and a range that
  holds timepoint 0, calls nothing and returns 0.
\<close>

theorem state_delta_null_state_is_applied:
  "rwn_history_state_delta
     (snd (rwn_history_schedule rwn_history_create 0 at_phase (Some e) (Some apply) destroy))
     0 0 None 0 w =
   Inr (1, apply e None w, [Applied 0]) \<and>
   rwn_history_state_delta_earlier
     (snd (rwn_history_schedule rwn_history_create 0 at_phase (Some e) (Some apply) destroy))
     0 1 None w =
   (0, w, [])"
  by (simp add: state_delta_at_zero state_delta_earlier_null_state)
     (simp add: rwn_history_schedule_def rwn_history_create_def
      event_list_at_def HASH_FIND_INT_def set_event_list_def LL_APPEND_def LL_SORT_def
      apply_timepoint_def Let_def)

section \<open>The representation invariant\<close>

lemma wf_historyD:
  assumes "wf_history h"
  shows wf_keys: "distinct (map fst (timepoint_hash_map h))"
    and wf_nonempty: "\<And>t es. map_of (timepoint_hash_map h) t = Some es \<Longrightarrow> 0 \<le> t \<and> es \<noteq> []"
    and wf_ordered: "\<And>t. phase_ordered (event_list_at h t)"
    and wf_distinct: "\<And>t. distinct (map ident (event_list_at h t))"
    and wf_disjoint: "\<And>t u. t \<noteq> u \<Longrightarrow> idents_at h t \<inter> idents_at h u = {}"
    and wf_bound: "\<And>t i. i \<in> idents_at h t \<Longrightarrow> i < next_ident h"
    and wf_handles_distinct: "distinct (event_handle_list h)"
    and wf_handles: "\<And>eh. eh \<in> set (event_handle_list h) \<longleftrightarrow>
                          event_list_elem eh \<in> idents_at h (timepoint eh)"
  using assms unfolding wf_history_def by blast+

lemma wf_create: "wf_history rwn_history_create"
  by (simp add: wf_history_def rwn_history_create_def event_list_at_def idents_at_def
      HASH_FIND_INT_def phase_ordered_def)

lemma event_list_at_update:
  "event_list_at (h\<lparr>timepoint_hash_map := set_event_list (timepoint_hash_map h) t es\<rparr>) u =
     (if u = t then es else event_list_at h u)"
  by (simp add: event_list_at_def HASH_FIND_INT_def set_event_list_def update_conv')

lemma event_list_at_delete:
  "event_list_at (h\<lparr>timepoint_hash_map := HASH_DEL (timepoint_hash_map h) t\<rparr>) u =
     (if u = t then [] else event_list_at h u)"
  by (simp add: event_list_at_def HASH_FIND_INT_def HASH_DEL_def delete_conv')

lemma event_list_at_handles [simp]:
  "event_list_at (h\<lparr>event_handle_list := hs\<rparr>) = event_list_at h"
  by (simp add: event_list_at_def fun_eq_iff)

lemma event_list_at_next [simp]:
  "event_list_at (h\<lparr>next_ident := k\<rparr>) = event_list_at h"
  by (simp add: event_list_at_def fun_eq_iff)

lemma schedule_negative: "t < 0 \<Longrightarrow> rwn_history_schedule h t p evt a d = (None, h)"
  by (simp add: rwn_history_schedule_def)

lemma schedule_handle:
  "0 \<le> t \<Longrightarrow> fst (rwn_history_schedule h t p evt a d) =
     Some \<lparr>timepoint = t, event_list_elem = next_ident h\<rparr>"
  by (simp add: rwn_history_schedule_def Let_def)

lemma schedule_event_list_at:
  "0 \<le> t \<Longrightarrow> event_list_at (snd (rwn_history_schedule h t p evt a d)) u =
     (if u = t then sort_key phase (event_list_at h t @ [new_entry h p evt a d])
      else event_list_at h u)"
  by (simp add: rwn_history_schedule_def Let_def LL_SORT_phase LL_APPEND_def new_entry_def
      event_list_at_def HASH_FIND_INT_def set_event_list_def update_conv')

lemma schedule_map:
  "0 \<le> t \<Longrightarrow> timepoint_hash_map (snd (rwn_history_schedule h t p evt a d)) =
     AList.update t (sort_key phase (event_list_at h t @ [new_entry h p evt a d]))
       (timepoint_hash_map h)"
  by (simp add: rwn_history_schedule_def Let_def LL_SORT_phase LL_APPEND_def new_entry_def
      set_event_list_def)

lemma schedule_handles:
  "0 \<le> t \<Longrightarrow> event_handle_list (snd (rwn_history_schedule h t p evt a d)) =
     event_handle_list h @ [\<lparr>timepoint = t, event_list_elem = next_ident h\<rparr>]"
  by (simp add: rwn_history_schedule_def Let_def LL_APPEND_def)

lemma schedule_next_ident:
  "0 \<le> t \<Longrightarrow> next_ident (snd (rwn_history_schedule h t p evt a d)) = Suc (next_ident h)"
  by (simp add: rwn_history_schedule_def Let_def)

lemma schedule_idents_at:
  "0 \<le> t \<Longrightarrow> idents_at (snd (rwn_history_schedule h t p evt a d)) u =
     (if u = t then insert (next_ident h) (idents_at h t) else idents_at h u)"
  by (simp add: idents_at_def schedule_event_list_at new_entry_def)

lemma phase_ordered_schedule:
  assumes "phase_ordered es" "\<forall>x \<in> set es. ident x < ident e"
  shows "phase_ordered (sort_key phase (es @ [e]))"
proof -
  have "sorted_wrt (<) (map ident (filter (\<lambda>x. phase x = k) (sort_key phase (es @ [e]))))" for k
  proof -
    have "filter (\<lambda>x. phase x = k) (sort_key phase (es @ [e])) =
            filter (\<lambda>x. phase x = k) es @ (if phase e = k then [e] else [])"
      by (simp add: sort_key_stable)
    moreover have "sorted_wrt (<) (map ident (filter (\<lambda>x. phase x = k) es))"
      using assms(1) by (simp add: phase_ordered_def)
    ultimately show ?thesis
      using assms(2) by (auto simp: sorted_wrt_append)
  qed
  then show ?thesis
    by (simp add: phase_ordered_def)
qed

lemma distinct_map_sort_key:
  "distinct (map g (sort_key f xs)) = distinct (map g xs)"
  by (simp add: distinct_map)

lemma wf_schedule:
  assumes wf: "wf_history h"
  shows "wf_history (snd (rwn_history_schedule h t p evt a d))"
proof (cases "t < 0")
  case True
  then show ?thesis using wf by (simp add: schedule_negative)
next
  case False
  then have t: "0 \<le> t" by simp
  let ?h = "snd (rwn_history_schedule h t p evt a d)"
  let ?e = "new_entry h p evt a d"
  let ?es = "sort_key phase (event_list_at h t @ [?e])"
  have ide: "ident ?e = next_ident h" by (simp add: new_entry_def)
  have old: "\<forall>x \<in> set (event_list_at h u). ident x < next_ident h" for u
    using wf_bound [OF wf, of _ u] by (auto simp: idents_at_def)
  have k: "distinct (map fst (timepoint_hash_map ?h))"
    by (simp add: schedule_map [OF t] distinct_update wf_keys [OF wf])
  have n: "0 \<le> u \<and> es \<noteq> []" if "map_of (timepoint_hash_map ?h) u = Some es" for u es
  proof (cases "u = t")
    case True
    with that have "es = ?es" by (simp add: schedule_map [OF t] update_conv')
    moreover have "?e \<in> set ?es" by simp
    then have "?es \<noteq> []" by (metis empty_iff empty_set)
    ultimately show ?thesis using t True by simp
  next
    case False
    with that have "map_of (timepoint_hash_map h) u = Some es"
      by (simp add: schedule_map [OF t] update_conv')
    then show ?thesis by (rule wf_nonempty [OF wf])
  qed
  have o: "phase_ordered (event_list_at ?h u)" for u
    using phase_ordered_schedule [of "event_list_at h t" ?e] wf_ordered [OF wf] old [of t]
    by (simp add: schedule_event_list_at [OF t] ide)
  have d: "distinct (map ident (event_list_at ?h u))" for u
    using wf_distinct [OF wf] old [of t]
    by (auto simp: schedule_event_list_at [OF t] distinct_map_sort_key ide)
  have x: "idents_at ?h u \<inter> idents_at ?h v = {}" if "u \<noteq> v" for u v
    using wf_disjoint [OF wf that] wf_bound [OF wf, of "next_ident h"] that
    by (auto simp: schedule_idents_at [OF t])
  have b: "i < next_ident ?h" if "i \<in> idents_at ?h u" for i u
    using that wf_bound [OF wf, of i]
    by (auto simp: schedule_idents_at [OF t] schedule_next_ident [OF t] less_Suc_eq
        split: if_splits)
  have fresh: "\<lparr>timepoint = t, event_list_elem = next_ident h\<rparr> \<notin> set (event_handle_list h)"
    using wf_handles [OF wf, of "\<lparr>timepoint = t, event_list_elem = next_ident h\<rparr>"]
      wf_bound [OF wf, of "next_ident h" t]
    by auto
  have hd: "distinct (event_handle_list ?h)"
    using wf_handles_distinct [OF wf] fresh by (simp add: schedule_handles [OF t])
  have hi: "eh \<in> set (event_handle_list ?h) \<longleftrightarrow>
              event_list_elem eh \<in> idents_at ?h (timepoint eh)" for eh
  proof (cases "eh = \<lparr>timepoint = t, event_list_elem = next_ident h\<rparr>")
    case True
    then show ?thesis by (simp add: schedule_handles [OF t] schedule_idents_at [OF t])
  next
    case False
    then have "timepoint eh = t \<Longrightarrow> event_list_elem eh \<noteq> next_ident h"
      by (cases eh) auto
    then show ?thesis
      using False wf_handles [OF wf, of eh]
      by (auto simp: schedule_handles [OF t] schedule_idents_at [OF t])
  qed
  show ?thesis
    unfolding wf_history_def
    using k n o d x b hd hi by blast
qed

lemma is_event_handle_valid_iff:
  "is_event_handle_valid h eh \<longleftrightarrow> event_list_elem eh \<in> idents_at h (timepoint eh)"
  by (auto simp: is_event_handle_valid_def idents_at_def event_list_at_def list_ex_iff
      split: option.split)

lemma LL_DELETE_filter:
  "distinct (map ident es) \<Longrightarrow> LL_DELETE es i = filter (\<lambda>e. ident e \<noteq> i) es"
proof (induction es)
  case Nil
  then show ?case by simp
next
  case (Cons x xs)
  show ?case
  proof (cases "ident x = i")
    case True
    with Cons.prems have "\<forall>e \<in> set xs. ident e \<noteq> i" by (fastforce simp: image_iff)
    then have "filter (\<lambda>e. ident e \<noteq> i) xs = xs" by (simp add: filter_id_conv)
    with True show ?thesis by simp
  next
    case False
    with Cons show ?thesis by simp
  qed
qed

lemma find_ident:
  "i \<in> ident ` set es \<Longrightarrow>
     \<exists>e. find (\<lambda>x. ident x = i) es = Some e \<and> e \<in> set es \<and> ident e = i"
  by (induction es) auto

lemma unschedule_invalid:
  "\<not> is_event_handle_valid h eh \<Longrightarrow> rwn_history_unschedule h eh w = Inl AssertionFailure"
  by (simp add: rwn_history_unschedule_def)

lemma unschedule_valid:
  assumes d: "distinct (map ident (event_list_at h (timepoint eh)))"
    and v: "is_event_handle_valid h eh"
  shows "\<exists>w' calls. rwn_history_unschedule h eh w = Inr (unscheduled h eh, w', calls) \<and>
           (\<forall>c \<in> set calls. c = Destroyed (event_list_elem eh))"
proof -
  from v obtain es where es: "map_of (timepoint_hash_map h) (timepoint eh) = Some es"
    by (auto simp: is_event_handle_valid_def HASH_FIND_INT_def split: option.splits)
  then have ela: "event_list_at h (timepoint eh) = es"
    by (simp add: event_list_at_def HASH_FIND_INT_def)
  from v have "event_list_elem eh \<in> ident ` set es"
    by (simp add: is_event_handle_valid_iff idents_at_def ela)
  then obtain e where e: "find (\<lambda>x. ident x = event_list_elem eh) es = Some e"
    and ie: "ident e = event_list_elem eh"
    using find_ident by blast
  have del: "LL_DELETE es (event_list_elem eh) = filter (\<lambda>e. ident e \<noteq> event_list_elem eh) es"
    using d by (simp add: LL_DELETE_filter ela)
  show ?thesis
    using v es e ie
    by (cases "user_event_destroy_func e")
       (simp_all add: rwn_history_unschedule_def HASH_FIND_INT_def del Let_def LL_COUNT_def
          unscheduled_def ela)
qed

lemma unscheduled_event_list_at:
  "event_list_at (unscheduled h eh) u =
     (if u = timepoint eh
      then filter (\<lambda>e. ident e \<noteq> event_list_elem eh) (event_list_at h u)
      else event_list_at h u)"
  by (simp add: unscheduled_def Let_def event_list_at_def HASH_FIND_INT_def HASH_DEL_def
      set_event_list_def update_conv' delete_conv')

lemma unscheduled_handles:
  "event_handle_list (unscheduled h eh) = remove1 eh (event_handle_list h)"
  by (simp add: unscheduled_def Let_def)

lemma unscheduled_next_ident: "next_ident (unscheduled h eh) = next_ident h"
  by (simp add: unscheduled_def Let_def)

lemma unscheduled_idents_at:
  "idents_at (unscheduled h eh) u =
     (if u = timepoint eh then idents_at h u - {event_list_elem eh} else idents_at h u)"
  by (auto simp: idents_at_def unscheduled_event_list_at)

lemma sorted_wrt_map_filter:
  "sorted_wrt R (map f xs) \<Longrightarrow> sorted_wrt R (map f (filter P xs))"
  by (simp add: sorted_wrt_map sorted_wrt_filter)

lemma phase_ordered_filter:
  assumes "phase_ordered es"
  shows "phase_ordered (filter P es)"
proof -
  have s1: "sorted (map phase es)"
    and s2: "sorted_wrt (<) (map ident (filter (\<lambda>e. phase e = k) es))" for k
    using assms by (simp_all add: phase_ordered_def)
  have "sorted_wrt (<) (map ident (filter (\<lambda>e. phase e = k) (filter P es)))" for k
  proof -
    have "filter (\<lambda>e. phase e = k) (filter P es) = filter P (filter (\<lambda>e. phase e = k) es)"
      by (simp add: conj_commute)
    then show ?thesis
      using sorted_wrt_map_filter [OF s2, of P k] by simp
  qed
  moreover have "sorted (map phase (filter P es))"
    using s1 by (rule sorted_wrt_map_filter)
  ultimately show ?thesis by (simp add: phase_ordered_def)
qed

lemma wf_unscheduled:
  assumes wf: "wf_history h" and v: "is_event_handle_valid h eh"
  shows "wf_history (unscheduled h eh)"
proof -
  let ?h = "unscheduled h eh"
  let ?es = "filter (\<lambda>e. ident e \<noteq> event_list_elem eh) (event_list_at h (timepoint eh))"
  have m: "timepoint_hash_map ?h =
             (if ?es = [] then AList.delete (timepoint eh) (timepoint_hash_map h)
              else AList.update (timepoint eh) ?es (timepoint_hash_map h))"
    by (simp add: unscheduled_def Let_def HASH_DEL_def set_event_list_def)
  have k: "distinct (map fst (timepoint_hash_map ?h))"
    by (simp add: m distinct_update distinct_delete wf_keys [OF wf])
  have n: "0 \<le> u \<and> es \<noteq> []" if "map_of (timepoint_hash_map ?h) u = Some es" for u es
  proof (cases "u = timepoint eh")
    case True
    with that have "?es \<noteq> [] \<and> es = ?es"
      by (auto simp: m update_conv' delete_conv' split: if_splits)
    moreover from v obtain es0 where "map_of (timepoint_hash_map h) (timepoint eh) = Some es0"
      by (auto simp: is_event_handle_valid_def HASH_FIND_INT_def split: option.splits)
    then have "0 \<le> timepoint eh" using wf_nonempty [OF wf] by blast
    ultimately show ?thesis using True by simp
  next
    case False
    with that have "map_of (timepoint_hash_map h) u = Some es"
      by (auto simp: m update_conv' delete_conv' split: if_splits)
    then show ?thesis by (rule wf_nonempty [OF wf])
  qed
  have o: "phase_ordered (event_list_at ?h u)" for u
    using wf_ordered [OF wf] by (simp add: unscheduled_event_list_at phase_ordered_filter)
  have d: "distinct (map ident (event_list_at ?h u))" for u
    using wf_distinct [OF wf] by (simp add: unscheduled_event_list_at distinct_map_filter)
  have x: "idents_at ?h u \<inter> idents_at ?h v = {}" if "u \<noteq> v" for u v
    using wf_disjoint [OF wf that] by (auto simp: unscheduled_idents_at)
  have b: "i < next_ident ?h" if "i \<in> idents_at ?h u" for i u
    using that wf_bound [OF wf, of i u]
    by (auto simp: unscheduled_idents_at unscheduled_next_ident split: if_splits)
  have hd: "distinct (event_handle_list ?h)"
    using wf_handles_distinct [OF wf] by (simp add: unscheduled_handles)
  have hi: "x \<in> set (event_handle_list ?h) \<longleftrightarrow>
              event_list_elem x \<in> idents_at ?h (timepoint x)" for x
  proof -
    have "x \<in> set (event_handle_list ?h) \<longleftrightarrow> x \<in> set (event_handle_list h) \<and> x \<noteq> eh"
      using wf_handles_distinct [OF wf] by (auto simp: unscheduled_handles)
    moreover have "x = eh \<longleftrightarrow> timepoint x = timepoint eh \<and> event_list_elem x = event_list_elem eh"
      by (cases x; cases eh) auto
    ultimately show ?thesis
      using wf_handles [OF wf, of x] by (auto simp: unscheduled_idents_at)
  qed
  show ?thesis
    unfolding wf_history_def
    using k n o d x b hd hi by blast
qed

lemma wf_unschedule:
  assumes "wf_history h" "rwn_history_unschedule h eh w = Inr (h', w', calls)"
  shows "wf_history h'"
proof -
  have v: "is_event_handle_valid h eh"
    using assms(2) unschedule_invalid [of h eh w] by auto
  then have "h' = unscheduled h eh"
    using unschedule_valid [OF wf_distinct [OF assms(1)] v, of w] assms(2) by auto
  then show ?thesis using wf_unscheduled [OF assms(1) v] by simp
qed

lemma handle_of_eq:
  "handle_of u e = eh \<longleftrightarrow> u = timepoint eh \<and> ident e = event_list_elem eh"
  by (cases eh) (auto simp: handle_of_def)

lemma handle_of_registered:
  "wf_history h \<Longrightarrow> e \<in> set (event_list_at h u) \<Longrightarrow> handle_of u e \<in> set (event_handle_list h)"
  by (simp add: wf_handles handle_of_def idents_at_def)

lemma unschedule_all_loop_skip:
  "\<not> in_range s f eh \<Longrightarrow>
     unschedule_all_loop (eh # rest) s f (n, h, w, calls) =
     unschedule_all_loop rest s f (n, h, w, calls)"
  by (auto simp: in_range_def)

lemma unschedule_all_loop_step:
  "in_range s f eh \<Longrightarrow> rwn_history_unschedule h eh w = Inr (h', w', c) \<Longrightarrow>
     unschedule_all_loop (eh # rest) s f (n, h, w, calls) =
     unschedule_all_loop rest s f (n + 1, h', w', calls @ c)"
  by (simp add: in_range_def)

lemma unschedule_all_loop_result:
  assumes "wf_history h" "distinct ehs"
    and "set (filter (in_range s f) ehs) \<subseteq> set (event_handle_list h)"
  shows "\<exists>h' w' calls'.
           unschedule_all_loop ehs s f (n, h, w, calls) =
             Inr (n + int (length (filter (in_range s f) ehs)), h', w', calls') \<and>
           wf_history h' \<and>
           event_handle_list h' =
             filter (\<lambda>eh. eh \<notin> set (filter (in_range s f) ehs)) (event_handle_list h) \<and>
           (\<forall>u. event_list_at h' u =
                  filter (\<lambda>e. handle_of u e \<notin> set (filter (in_range s f) ehs))
                    (event_list_at h u))"
  using assms
proof (induction ehs arbitrary: n h w calls)
  case Nil
  then show ?case by simp
next
  case (Cons eh rest)
  show ?case
  proof (cases "in_range s f eh")
    case False
    have "set (filter (in_range s f) rest) \<subseteq> set (event_handle_list h)"
      using Cons.prems(3) False by simp
    moreover have "distinct rest" using Cons.prems(2) by simp
    ultimately show ?thesis
      using Cons.IH [OF Cons.prems(1), of n w calls] False
      by (simp add: unschedule_all_loop_skip del: unschedule_all_loop.simps)
  next
    case True
    let ?h1 = "unscheduled h eh"
    have mem: "eh \<in> set (event_handle_list h)"
      using Cons.prems(3) True by simp
    then have v: "is_event_handle_valid h eh"
      using wf_handles [OF Cons.prems(1)] by (simp add: is_event_handle_valid_iff)
    obtain w1 c1 where u: "rwn_history_unschedule h eh w = Inr (?h1, w1, c1)"
      using unschedule_valid [OF wf_distinct [OF Cons.prems(1)] v, of w] by blast
    have wf1: "wf_history ?h1" by (rule wf_unscheduled [OF Cons.prems(1) v])
    have nin: "eh \<notin> set rest" and dr: "distinct rest"
      using Cons.prems(2) by simp_all
    have h1: "event_handle_list ?h1 = filter (\<lambda>x. x \<noteq> eh) (event_handle_list h)"
      using wf_handles_distinct [OF Cons.prems(1)]
      by (simp add: unscheduled_handles distinct_remove1_removeAll removeAll_filter_not_eq
          eq_commute [of eh])
    have sub: "set (filter (in_range s f) rest) \<subseteq> set (event_handle_list ?h1)"
      using Cons.prems(3) nin by (auto simp: h1)
    obtain h' w' calls' where
      r: "unschedule_all_loop rest s f (n + 1, ?h1, w1, calls @ c1) =
            Inr (n + 1 + int (length (filter (in_range s f) rest)), h', w', calls')"
      and wf': "wf_history h'"
      and hs: "event_handle_list h' =
                 filter (\<lambda>x. x \<notin> set (filter (in_range s f) rest)) (event_handle_list ?h1)"
      and ev: "\<And>u. event_list_at h' u =
                 filter (\<lambda>e. handle_of u e \<notin> set (filter (in_range s f) rest))
                   (event_list_at ?h1 u)"
      using Cons.IH [OF wf1 dr sub, of "n + 1" w1 "calls @ c1"] by blast
    have a: "unschedule_all_loop (eh # rest) s f (n, h, w, calls) =
               Inr (n + int (length (filter (in_range s f) (eh # rest))), h', w', calls')"
      using True r by (simp add: unschedule_all_loop_step [OF True u] add.assoc
          del: unschedule_all_loop.simps)
    have b: "event_handle_list h' =
               filter (\<lambda>x. x \<notin> set (filter (in_range s f) (eh # rest))) (event_handle_list h)"
      using True by (simp add: hs h1 conj_commute)
    have c: "event_list_at h' u =
               filter (\<lambda>e. handle_of u e \<notin> set (filter (in_range s f) (eh # rest)))
                 (event_list_at h u)" for u
      using True by (auto simp: ev unscheduled_event_list_at handle_of_eq intro: filter_cong)
    show ?thesis using a wf' b c by blast
  qed
qed

lemma unschedule_all_invalid_range:
  "start < 0 \<or> finish < 0 \<or> finish < start \<Longrightarrow>
     rwn_history_unschedule_all h start finish w = Inr (0, h, w, [])"
  by (auto simp: rwn_history_unschedule_all_def)

lemma unschedule_all_valid_range:
  assumes wf: "wf_history h" and r: "0 \<le> start" "start \<le> finish"
  shows "\<exists>h' w' calls.
           rwn_history_unschedule_all h start finish w =
             Inr (int (length (filter (in_range start finish) (event_handle_list h))),
                  h', w', calls) \<and>
           wf_history h' \<and>
           event_handle_list h' =
             filter (\<lambda>eh. \<not> in_range start finish eh) (event_handle_list h) \<and>
           (\<forall>u. event_list_at h' u =
                  (if start \<le> u \<and> u \<le> finish then [] else event_list_at h u))"
proof -
  let ?R = "set (filter (in_range start finish) (event_handle_list h))"
  obtain h' w' calls where
    a: "unschedule_all_loop (event_handle_list h) start finish (0, h, w, []) =
          Inr (0 + int (length (filter (in_range start finish) (event_handle_list h))),
               h', w', calls)"
    and wf': "wf_history h'"
    and hs: "event_handle_list h' = filter (\<lambda>x. x \<notin> ?R) (event_handle_list h)"
    and ev: "\<And>u. event_list_at h' u = filter (\<lambda>e. handle_of u e \<notin> ?R) (event_list_at h u)"
    using unschedule_all_loop_result [OF wf wf_handles_distinct [OF wf], of start finish 0 w "[]"]
    by auto
  have 1: "rwn_history_unschedule_all h start finish w =
             Inr (int (length (filter (in_range start finish) (event_handle_list h))),
                  h', w', calls)"
    using r a by (simp add: rwn_history_unschedule_all_def)
  have 2: "event_handle_list h' =
             filter (\<lambda>eh. \<not> in_range start finish eh) (event_handle_list h)"
    unfolding hs by (rule filter_cong) auto
  have 3: "event_list_at h' u = (if start \<le> u \<and> u \<le> finish then [] else event_list_at h u)"
    for u
  proof -
    have "handle_of u e \<in> ?R \<longleftrightarrow> start \<le> u \<and> u \<le> finish" if "e \<in> set (event_list_at h u)" for e
      using handle_of_registered [OF wf that] by (simp add: in_range_def handle_of_def)
    then have "filter (\<lambda>e. handle_of u e \<notin> ?R) (event_list_at h u) =
                 filter (\<lambda>e. \<not> (start \<le> u \<and> u \<le> finish)) (event_list_at h u)"
      by (intro filter_cong) auto
    then show ?thesis by (simp add: ev)
  qed
  show ?thesis using 1 wf' 2 3 by blast
qed

lemma reachable_wf: "reachable h \<Longrightarrow> wf_history h"
proof (induction rule: reachable.induct)
  case reachable_create
  show ?case by (rule wf_create)
next
  case (reachable_schedule h at_timepoint at_phase evt evt_apply_func evt_destroy_func)
  then show ?case by (simp add: wf_schedule)
next
  case (reachable_unschedule h eh w h' w' calls)
  show ?case
    by (rule wf_unschedule [OF reachable_unschedule.IH reachable_unschedule.hyps(2)])
next
  case (reachable_unschedule_all h start_timepoint finish_timepoint w n h' w' calls)
  show ?case
  proof (cases "start_timepoint < 0 \<or> finish_timepoint < 0 \<or> finish_timepoint < start_timepoint")
    case True
    then show ?thesis
      using reachable_unschedule_all.hyps(2) reachable_unschedule_all.IH
      by (simp add: unschedule_all_invalid_range)
  next
    case False
    then have "0 \<le> start_timepoint" "start_timepoint \<le> finish_timepoint" by simp_all
    from unschedule_all_valid_range [OF reachable_unschedule_all.IH this, of w]
      reachable_unschedule_all.hyps(2)
    show ?thesis by auto
  qed
qed

lemma reachable_single_history: "reachable single_history"
  unfolding single_history_def by (rule reachable_schedule [OF reachable_create])

lemma reachable_phases_history: "reachable phases_history"
  unfolding phases_history_def Let_def
  by (intro reachable_schedule reachable_create)

lemma reachable_alive_history: "reachable alive_history"
  unfolding alive_history_def Let_def
  by (intro reachable_schedule reachable_create)

section \<open>Range unscheduling\<close>

text \<open>
  C4. For a History built through the interface: an invalid range (\<open>start < 0\<close>,
  \<open>finish < 0\<close> or \<open>finish < start\<close>) gives 0 and changes nothing. Otherwise
  \<^verbatim>\<open>rwn_history_unschedule_all\<close> returns (no assertion fails), the handles left are those
  whose timepoint is outside \<open>[start, finish]\<close>, the result is the number of handles that
  were inside, the bucket of every timepoint outside the range is what it was (so its
  count is unchanged), and the timepoints inside the range have no events left.
\<close>

theorem unschedule_all_inclusive_range:
  assumes "reachable h"
  shows "(start < 0 \<or> finish < 0 \<or> finish < start \<longrightarrow>
            rwn_history_unschedule_all h start finish w = Inr (0, h, w, [])) \<and>
         (0 \<le> start \<and> start \<le> finish \<longrightarrow>
            (\<exists>h' w' calls.
               rwn_history_unschedule_all h start finish w =
                 Inr (int (length (filter (in_range start finish) (event_handle_list h))),
                      h', w', calls) \<and>
               event_handle_list h' =
                 filter (\<lambda>eh. \<not> in_range start finish eh) (event_handle_list h) \<and>
               (\<forall>t. \<not> (start \<le> t \<and> t \<le> finish) \<longrightarrow>
                      event_list_at h' t = event_list_at h t \<and>
                      rwn_history_count_events h' t = rwn_history_count_events h t) \<and>
               (\<forall>t. start \<le> t \<and> t \<le> finish \<longrightarrow>
                      event_list_at h' t = [] \<and> rwn_history_count_events h' t = 0)))"
proof (intro conjI impI)
  assume "start < 0 \<or> finish < 0 \<or> finish < start"
  then show "rwn_history_unschedule_all h start finish w = Inr (0, h, w, [])"
    by (rule unschedule_all_invalid_range)
next
  assume r: "0 \<le> start \<and> start \<le> finish"
  have wf: "wf_history h" using assms by (rule reachable_wf)
  obtain h' w' calls where
    1: "rwn_history_unschedule_all h start finish w =
          Inr (int (length (filter (in_range start finish) (event_handle_list h))),
               h', w', calls)"
    and 2: "event_handle_list h' =
              filter (\<lambda>eh. \<not> in_range start finish eh) (event_handle_list h)"
    and 3: "\<forall>u. event_list_at h' u =
              (if start \<le> u \<and> u \<le> finish then [] else event_list_at h u)"
    using unschedule_all_valid_range [OF wf conjunct1 [OF r] conjunct2 [OF r], of w]
    by (elim exE conjE) (rule that, assumption+)
  have c: "rwn_history_count_events k t =
             (if t < 0 then 0 else int (length (event_list_at k t)))"
    for k :: "('a, 'b, 'c) RwnHistory" and t
    by (simp add: count_events_eq) (simp add: rwn_history_count_events_def)
  have 4: "\<forall>t. \<not> (start \<le> t \<and> t \<le> finish) \<longrightarrow>
                      event_list_at h' t = event_list_at h t \<and>
                      rwn_history_count_events h' t = rwn_history_count_events h t"
    by (simp add: c 3)
  have 5: "\<forall>t. start \<le> t \<and> t \<le> finish \<longrightarrow>
                      event_list_at h' t = [] \<and> rwn_history_count_events h' t = 0"
    by (simp add: c 3)
  show "\<exists>h' w' calls.
               rwn_history_unschedule_all h start finish w =
                 Inr (int (length (filter (in_range start finish) (event_handle_list h))),
                      h', w', calls) \<and>
               event_handle_list h' =
                 filter (\<lambda>eh. \<not> in_range start finish eh) (event_handle_list h) \<and>
               (\<forall>t. \<not> (start \<le> t \<and> t \<le> finish) \<longrightarrow>
                      event_list_at h' t = event_list_at h t \<and>
                      rwn_history_count_events h' t = rwn_history_count_events h t) \<and>
               (\<forall>t. start \<le> t \<and> t \<le> finish \<longrightarrow>
                      event_list_at h' t = [] \<and> rwn_history_count_events h' t = 0)"
    by (intro exI conjI) (rule 1, rule 2, rule 4, rule 5)
qed

theorem unschedule_all_inclusive_range_witness:
  "reachable phases_history \<and> (- 1 :: int) < 0 \<and> (0 :: int) \<le> 0 \<and>
   rwn_history_unschedule_all phases_history (- 1) 0 5 = Inr (0, phases_history, 5, []) \<and>
   (\<exists>h' w' calls.
      rwn_history_unschedule_all phases_history 0 0 5 =
        Inr (int (length (filter (in_range 0 0) (event_handle_list phases_history))),
             h', w', calls) \<and>
      event_handle_list h' =
        filter (\<lambda>eh. \<not> in_range 0 0 eh) (event_handle_list phases_history) \<and>
      (\<forall>t. \<not> (0 \<le> t \<and> t \<le> 0) \<longrightarrow>
             event_list_at h' t = event_list_at phases_history t \<and>
             rwn_history_count_events h' t = rwn_history_count_events phases_history t) \<and>
      (\<forall>t. 0 \<le> t \<and> t \<le> 0 \<longrightarrow>
             event_list_at h' t = [] \<and> rwn_history_count_events h' t = 0))"
proof -
  have a: "(- 1 :: int) < 0 \<or> (0 :: int) < 0 \<or> (0 :: int) < - 1" by simp
  have b: "(0 :: int) \<le> 0 \<and> (0 :: int) \<le> 0" by simp
  note t1 = unschedule_all_inclusive_range [OF reachable_phases_history, of "- 1" 0 5]
  note t2 = unschedule_all_inclusive_range [OF reachable_phases_history, of 0 0 5]
  show ?thesis
    using reachable_phases_history mp [OF conjunct1 [OF t1] a] mp [OF conjunct2 [OF t2] b]
    by simp
qed

section \<open>Buckets are never empty\<close>

text \<open>
  C8. In a History built from \<^verbatim>\<open>rwn_history_create\<close> by schedule, unschedule and
  unschedule_all calls, every timepoint that is a key of the hash map has a non-empty
  event list, so its count is positive.
\<close>

theorem mapped_timepoint_has_events:
  assumes "reachable h" "HASH_FIND_INT (timepoint_hash_map h) t = Some es"
  shows "es \<noteq> [] \<and> 0 < rwn_history_count_events h t"
proof -
  have "0 \<le> t \<and> es \<noteq> []"
    using wf_nonempty [OF reachable_wf [OF assms(1)], of t es] assms(2)
    by (simp add: HASH_FIND_INT_def)
  then show ?thesis
    using assms(2) by (simp add: rwn_history_count_events_def LL_COUNT_def)
qed

theorem mapped_timepoint_has_events_witness:
  "reachable single_history \<and>
   HASH_FIND_INT (timepoint_hash_map single_history) 0 =
     Some [\<lparr>ident = 0, user_event = Some 1, user_event_apply_func = Some test_event_incr_apply,
            user_event_destroy_func = Some free, phase = 0\<rparr>] \<and>
   0 < rwn_history_count_events single_history 0"
proof -
  have f: "HASH_FIND_INT (timepoint_hash_map single_history) 0 =
     Some [\<lparr>ident = 0, user_event = Some 1, user_event_apply_func = Some test_event_incr_apply,
            user_event_destroy_func = Some free, phase = 0\<rparr>]"
    by (simp add: single_history_eval HASH_FIND_INT_def)
  show ?thesis
    using reachable_single_history f mapped_timepoint_has_events [OF reachable_single_history f]
    by simp
qed

section \<open>Enumeration\<close>

lemma phase_ordered_sorted_wrt:
  "phase_ordered es \<Longrightarrow> sorted_wrt scheduled_before es"
proof (induction es)
  case Nil
  then show ?case by simp
next
  case (Cons x xs)
  have s1: "sorted (map phase (x # xs))"
    and s2: "sorted_wrt (<) (map ident (filter (\<lambda>e. phase e = k) (x # xs)))" for k
    using Cons.prems by (simp_all add: phase_ordered_def)
  have "sorted_wrt (<) (map ident (filter (\<lambda>e. phase e = k) xs))" for k
    using s2 [of k] by (cases "phase x = k") simp_all
  then have "phase_ordered xs" using s1 by (simp add: phase_ordered_def)
  then have tl: "sorted_wrt scheduled_before xs" by (rule Cons.IH)
  have "scheduled_before x y" if "y \<in> set xs" for y
  proof (cases "phase x = phase y")
    case True
    then show ?thesis
      using s2 [of "phase x"] that by (auto simp: scheduled_before_def)
  next
    case False
    then show ?thesis using s1 that by (auto simp: scheduled_before_def)
  qed
  with tl show ?case by simp
qed

text \<open>
  C7. For a History built through the interface and \<open>t \<ge> 0\<close>,
  \<^verbatim>\<open>rwn_history_get_events\<close> returns the count of the timepoint and stores that many values:
  the payloads of the bucket in its stored order, which is ascending by phase and, for
  equal phases, in the order of scheduling. The function takes the History read-only
  and returns nothing but the count and the stored values, so the records stay where
  they are.
\<close>

theorem get_events_phase_ordered:
  assumes "reachable h" "0 \<le> t"
  shows "rwn_history_get_events h t =
           (rwn_history_count_events h t, map user_event (event_list_at h t)) \<and>
         int (length (snd (rwn_history_get_events h t))) = rwn_history_count_events h t \<and>
         sorted_wrt scheduled_before (event_list_at h t)"
proof -
  have "sorted_wrt scheduled_before (event_list_at h t)"
    by (rule phase_ordered_sorted_wrt [OF wf_ordered [OF reachable_wf [OF assms(1)]]])
  then show ?thesis
    using assms(2) by (simp add: get_events_eq count_events_eq)
qed

theorem get_events_phase_ordered_witness:
  "reachable phases_history \<and> (0 :: int) \<le> 0 \<and>
   rwn_history_get_events phases_history 0 =
     (rwn_history_count_events phases_history 0,
      map user_event (event_list_at phases_history 0)) \<and>
   int (length (snd (rwn_history_get_events phases_history 0))) =
     rwn_history_count_events phases_history 0 \<and>
   sorted_wrt scheduled_before (event_list_at phases_history 0) \<and>
   rwn_history_get_events phases_history 0 = (4, [Some 1, Some 2, Some 1, Some 2]) \<and>
   map ident (event_list_at phases_history 0) = [1, 3, 0, 2]"
proof -
  have a: "(0 :: int) \<le> 0" by simp
  have e: "rwn_history_get_events phases_history 0 = (4, [Some 1, Some 2, Some 1, Some 2])"
    by (simp add: phases_history_eval rwn_history_get_events_def rwn_history_count_events_def
        HASH_FIND_INT_def LL_COUNT_def)
  have i: "map ident (event_list_at phases_history 0) = [1, 3, 0, 2]"
    by (simp add: phases_history_eval event_list_at_def HASH_FIND_INT_def)
  note t = get_events_phase_ordered [OF reachable_phases_history a]
  show ?thesis
    by (intro conjI)
       (rule reachable_phases_history, rule a, rule t [THEN conjunct1],
        rule t [THEN conjunct2, THEN conjunct1], rule t [THEN conjunct2, THEN conjunct2],
        rule e, rule i)
qed

section \<open>Teardown\<close>

lemma destroy_event_list_calls:
  "snd (destroy_event_list es (w, calls)) =
     calls @ map (\<lambda>e. Destroyed (ident e)) (filter (\<lambda>e. user_event_destroy_func e \<noteq> None) es)"
  by (induction es arbitrary: w calls) (auto split: option.split)

lemma destroy_map_entries_calls:
  "snd (destroy_map_entries m (w, calls)) =
     calls @ map (\<lambda>e. Destroyed (ident e))
               (filter (\<lambda>e. user_event_destroy_func e \<noteq> None) (concat (map snd m)))"
proof (induction m arbitrary: w calls)
  case Nil
  then show ?case by simp
next
  case (Cons entry m)
  obtain w1 c1 where d: "destroy_event_list (snd entry) (w, calls) = (w1, c1)"
    by (cases "destroy_event_list (snd entry) (w, calls)") auto
  have "c1 = calls @ map (\<lambda>e. Destroyed (ident e))
               (filter (\<lambda>e. user_event_destroy_func e \<noteq> None) (snd entry))"
    using destroy_event_list_calls [of "snd entry" w calls] d by simp
  then show ?case by (simp add: d Cons.IH)
qed

lemma destroy_event_list_eq:
  "destroy_event_list es (w, calls) =
     (fold run_destroy es w,
      calls @ map (\<lambda>e. Destroyed (ident e)) (filter (\<lambda>e. user_event_destroy_func e \<noteq> None) es))"
  by (induction es arbitrary: w calls) (auto simp: run_destroy_def split: option.split)

lemma destroy_map_entries_eq:
  "destroy_map_entries m (w, calls) =
     (fold run_destroy (concat (map snd m)) w,
      calls @ map (\<lambda>e. Destroyed (ident e))
                (filter (\<lambda>e. user_event_destroy_func e \<noteq> None) (concat (map snd m))))"
  by (induction m arbitrary: w calls) (simp_all add: destroy_event_list_eq)

lemma count_list_distinct:
  "distinct xs \<Longrightarrow> count_list xs x = (if x \<in> set xs then 1 else 0)"
  by (induction xs) auto

lemma distinct_idents_concat:
  assumes "distinct (map fst m)"
    and "\<And>t es. (t, es) \<in> set m \<Longrightarrow> distinct (map ident es)"
    and "\<And>t es u fs. (t, es) \<in> set m \<Longrightarrow> (u, fs) \<in> set m \<Longrightarrow> t \<noteq> u \<Longrightarrow>
           ident ` set es \<inter> ident ` set fs = {}"
  shows "distinct (map ident (concat (map snd m)))"
  using assms
proof (induction m)
  case Nil
  then show ?case by simp
next
  case (Cons p m)
  obtain t es where p: "p = (t, es)" by (cases p)
  have ih: "distinct (map ident (concat (map snd m)))"
  proof (rule Cons.IH)
    show "distinct (map fst m)" using Cons.prems(1) by simp
    show "distinct (map ident es')" if "(t', es') \<in> set m" for t' es'
      using Cons.prems(2) [of t' es'] that by simp
    show "ident ` set es' \<inter> ident ` set fs = {}"
      if "(t', es') \<in> set m" "(u, fs) \<in> set m" "t' \<noteq> u" for t' es' u fs
      using Cons.prems(3) [of t' es' u fs] that by simp
  qed
  have d: "distinct (map ident es)" using Cons.prems(2) [of t es] p by simp
  have "i \<notin> ident ` set (concat (map snd m))" if i: "i \<in> ident ` set es" for i
  proof
    assume "i \<in> ident ` set (concat (map snd m))"
    then obtain u fs where m: "(u, fs) \<in> set m" and j: "i \<in> ident ` set fs"
      by auto
    have "t \<noteq> u" using Cons.prems(1) p m by (auto simp: image_iff)
    then have "ident ` set es \<inter> ident ` set fs = {}"
      using Cons.prems(3) [of t es u fs] p m by simp
    with i j show False by blast
  qed
  then have "ident ` set es \<inter> ident ` set (concat (map snd m)) = {}"
    by blast
  then show ?case using ih d p by simp
qed

lemma wf_map_entry:
  assumes "wf_history h"
  shows "(t, es) \<in> set (timepoint_hash_map h) \<longleftrightarrow>
           map_of (timepoint_hash_map h) t = Some es"
  using wf_keys [OF assms] by simp

lemma wf_entries:
  assumes "wf_history h"
  shows "e \<in> set (concat (map snd (timepoint_hash_map h))) \<longleftrightarrow>
           (\<exists>t. e \<in> set (event_list_at h t))"
proof
  assume "e \<in> set (concat (map snd (timepoint_hash_map h)))"
  then obtain t es where "(t, es) \<in> set (timepoint_hash_map h)" "e \<in> set es"
    by auto
  then have "e \<in> set (event_list_at h t)"
    by (simp add: wf_map_entry [OF assms] event_list_at_def HASH_FIND_INT_def)
  then show "\<exists>t. e \<in> set (event_list_at h t)" by blast
next
  assume "\<exists>t. e \<in> set (event_list_at h t)"
  then obtain t where t: "e \<in> set (event_list_at h t)" by blast
  then obtain es where "map_of (timepoint_hash_map h) t = Some es" "e \<in> set es"
    by (cases "map_of (timepoint_hash_map h) t")
       (simp_all add: event_list_at_def HASH_FIND_INT_def)
  then have "(t, es) \<in> set (timepoint_hash_map h)" "e \<in> set es"
    by (simp_all add: wf_map_entry [OF assms])
  then show "e \<in> set (concat (map snd (timepoint_hash_map h)))"
    by force
qed

lemma wf_distinct_entries:
  assumes "wf_history h"
  shows "distinct (map ident (concat (map snd (timepoint_hash_map h))))"
proof (rule distinct_idents_concat)
  show "distinct (map fst (timepoint_hash_map h))" by (rule wf_keys [OF assms])
  have at: "event_list_at h t = es" if "(t, es) \<in> set (timepoint_hash_map h)" for t es
    using that wf_keys [OF assms] by (simp add: event_list_at_def HASH_FIND_INT_def)
  show "distinct (map ident es)" if "(t, es) \<in> set (timepoint_hash_map h)" for t es
    using wf_distinct [OF assms, of t] at [OF that] by simp
  show "ident ` set es \<inter> ident ` set fs = {}"
    if "(t, es) \<in> set (timepoint_hash_map h)" "(u, fs) \<in> set (timepoint_hash_map h)" "t \<noteq> u"
    for t es u fs
    using wf_disjoint [OF assms that(3)] at [OF that(1)] at [OF that(2)]
    by (simp add: idents_at_def)
qed

text \<open>
  C5. For a History built through the interface, \<^verbatim>\<open>rwn_history_destroy\<close> leaves the caller's
  memory as it is after running, for every scheduled entry once and bucket after bucket,
  the entry's destroy behaviour on the entry's payload (nothing for an entry without
  one), and these are all the calls it makes. The scheduled entries are listed once each
  (their addresses are distinct) and are the entries of the buckets. So the destroy
  behaviour of every scheduled entry that has one is called exactly once, that of an
  entry without one never, and every call is the destroy behaviour of a scheduled entry:
  no apply behaviour runs and no thread is created.
\<close>

theorem destroy_runs_each_destroy_behaviour_once:
  assumes "reachable h"
  shows "rwn_history_destroy h w =
           (fold run_destroy (scheduled_entries h) w,
            map (\<lambda>e. Destroyed (ident e))
              (filter (\<lambda>e. user_event_destroy_func e \<noteq> None) (scheduled_entries h))) \<and>
         distinct (map ident (scheduled_entries h)) \<and>
         (\<forall>e. e \<in> set (scheduled_entries h) \<longleftrightarrow> (\<exists>t. e \<in> set (event_list_at h t))) \<and>
         (\<forall>t e. e \<in> set (event_list_at h t) \<longrightarrow>
            count_list (snd (rwn_history_destroy h w)) (Destroyed (ident e)) =
              (if user_event_destroy_func e = None then 0 else 1)) \<and>
         (\<forall>c \<in> set (snd (rwn_history_destroy h w)).
            \<exists>t e. e \<in> set (event_list_at h t) \<and> user_event_destroy_func e \<noteq> None \<and>
                  c = Destroyed (ident e))"
proof -
  have wf: "wf_history h" using assms by (rule reachable_wf)
  let ?all = "concat (map snd (timepoint_hash_map h))"
  let ?ds = "filter (\<lambda>e. user_event_destroy_func e \<noteq> None) ?all"
  have eq: "rwn_history_destroy h w =
           (fold run_destroy (scheduled_entries h) w,
            map (\<lambda>e. Destroyed (ident e))
              (filter (\<lambda>e. user_event_destroy_func e \<noteq> None) (scheduled_entries h)))"
    by (simp add: rwn_history_destroy_def destroy_map_entries_eq scheduled_entries_def)
  have calls: "snd (rwn_history_destroy h w) = map Destroyed (map ident ?ds)"
    by (simp add: rwn_history_destroy_def destroy_map_entries_calls)
  have dis: "distinct (map ident ?all)" by (rule wf_distinct_entries [OF wf])
  then have dis': "distinct (map ident (scheduled_entries h))"
    by (simp add: scheduled_entries_def)
  have mem': "\<forall>e. e \<in> set (scheduled_entries h) \<longleftrightarrow> (\<exists>t. e \<in> set (event_list_at h t))"
    unfolding scheduled_entries_def using wf_entries [OF wf] by blast
  from dis have dds: "distinct (map ident ?ds)" by (rule distinct_map_filter)
  have inj: "inj_on ident (set ?all)" using dis by (simp add: distinct_map)
  have 1: "count_list (snd (rwn_history_destroy h w)) (Destroyed (ident e)) =
              (if user_event_destroy_func e = None then 0 else 1)"
    if "e \<in> set (event_list_at h t)" for t e
  proof -
    have mem: "e \<in> set ?all" using that wf_entries [OF wf] by blast
    have "count_list (map Destroyed (map ident ?ds)) (Destroyed (ident e)) =
            count_list (map ident ?ds) (ident e)"
      by (rule count_list_map_conv) (simp add: inj_on_def)
    also have "\<dots> = (if ident e \<in> set (map ident ?ds) then 1 else 0)"
      by (rule count_list_distinct [OF dds])
    also have "ident e \<in> set (map ident ?ds) \<longleftrightarrow> user_event_destroy_func e \<noteq> None"
    proof
      assume "ident e \<in> set (map ident ?ds)"
      then obtain e' where "e' \<in> set ?ds" "ident e' = ident e"
        by (metis (no_types, lifting) image_iff list.set_map)
      then have e': "e' \<in> set ?all" "user_event_destroy_func e' \<noteq> None"
        "ident e' = ident e" by simp_all
      then have "e' = e" using inj mem by (auto dest: inj_onD)
      with e' show "user_event_destroy_func e \<noteq> None" by simp
    next
      assume "user_event_destroy_func e \<noteq> None"
      with mem show "ident e \<in> set (map ident ?ds)" by auto
    qed
    finally show ?thesis by (simp add: calls)
  qed
  have 2: "\<exists>t e. e \<in> set (event_list_at h t) \<and> user_event_destroy_func e \<noteq> None \<and>
                  c = Destroyed (ident e)"
    if "c \<in> set (snd (rwn_history_destroy h w))" for c
  proof -
    from that have "c \<in> (\<lambda>e. Destroyed (ident e)) ` set ?ds"
      unfolding calls by (simp add: image_image)
    then obtain e where "e \<in> set ?ds" "c = Destroyed (ident e)" by blast
    then have "e \<in> set ?all" "user_event_destroy_func e \<noteq> None" "c = Destroyed (ident e)"
      by simp_all
    then show ?thesis using wf_entries [OF wf] by blast
  qed
  have q1: "\<forall>t e. e \<in> set (event_list_at h t) \<longrightarrow>
            count_list (snd (rwn_history_destroy h w)) (Destroyed (ident e)) =
              (if user_event_destroy_func e = None then 0 else 1)"
    using 1 by blast
  have q2: "\<forall>c \<in> set (snd (rwn_history_destroy h w)).
            \<exists>t e. e \<in> set (event_list_at h t) \<and> user_event_destroy_func e \<noteq> None \<and>
                  c = Destroyed (ident e)"
    using 2 by blast
  show ?thesis
    by (intro conjI) (rule eq, rule dis', rule mem', rule q1, rule q2)
qed

theorem destroy_runs_each_destroy_behaviour_once_witness:
  "reachable alive_history \<and>
   \<lparr>ident = 1, user_event = Some 1, user_event_apply_func = None,
    user_event_destroy_func = Some test_event_alive_destroy, phase = 0\<rparr>
     \<in> set (event_list_at alive_history 1) \<and>
   count_list (snd (rwn_history_destroy alive_history [True, True])) (Destroyed 1) = 1 \<and>
   rwn_history_destroy alive_history [True, True] =
     ([False, False], [Destroyed 0, Destroyed 1]) \<and>
   fold run_destroy (scheduled_entries alive_history) [True, True] = [False, False]"
proof -
  let ?e = "\<lparr>ident = 1, user_event = Some (1 :: nat),
             user_event_apply_func = None :: (nat, unit, bool list) RwnEventApplyFunc option,
             user_event_destroy_func = Some test_event_alive_destroy, phase = 0\<rparr>"
  note t = destroy_runs_each_destroy_behaviour_once [OF reachable_alive_history, of "[True, True]"]
  have m: "?e \<in> set (event_list_at alive_history 1)"
    by (simp add: alive_history_eval event_list_at_def HASH_FIND_INT_def)
  have c: "count_list (snd (rwn_history_destroy alive_history [True, True])) (Destroyed 1) = 1"
    using t [THEN conjunct2, THEN conjunct2, THEN conjunct2, THEN conjunct1, rule_format, OF m]
    by simp
  have e: "rwn_history_destroy alive_history [True, True] =
     ([False, False], [Destroyed 0, Destroyed 1])"
    by (simp add: alive_history_eval rwn_history_destroy_def test_event_alive_destroy_def)
  have f: "fold run_destroy (scheduled_entries alive_history) [True, True] = [False, False]"
    using t [THEN conjunct1] unfolding e by simp
  show ?thesis
    by (intro conjI) (rule reachable_alive_history, rule m, rule c, rule e, rule f)
qed

section \<open>Events without a payload\<close>

lemma state_delta_result:
  assumes "rwn_history_state_delta h start finish state mt w = Inr (n, w', calls)"
  shows "n = int (length (applied_idents calls))"
    and "\<And>i. i \<in> set (applied_idents calls) \<Longrightarrow>
           \<exists>t e. e \<in> set (event_list_at h t) \<and> applicable e \<and> ident e = i"
proof -
  have "n = int (length (applied_idents calls)) \<and>
        (\<forall>i \<in> set (applied_idents calls).
           \<exists>t e. e \<in> set (event_list_at h t) \<and> applicable e \<and> ident e = i)"
  proof (cases "start < 0 \<or> finish < 0 \<or> finish < start")
    case True
    then have "rwn_history_state_delta h start finish state mt w = Inr (0, w, [])"
      by (auto simp: rwn_history_state_delta_def)
    then have "n = 0" "calls = []"
      using assms by simp_all
    then show ?thesis by simp
  next
    case False
    then have l: "state_delta_loop (timepoint_hash_map h) start finish state mt (0, w, []) =
                    Inr (n, w', calls)"
      using assms by (simp add: rwn_history_state_delta_def)
    have n: "n = int (length (replayed (timepoint_hash_map h) start finish))"
      and c: "applied_idents calls = map ident (replayed (timepoint_hash_map h) start finish)"
      using state_delta_loop_result [OF l] by simp_all
    have "\<exists>t e. e \<in> set (event_list_at h t) \<and> applicable e \<and> ident e = i"
      if "i \<in> set (applied_idents calls)" for i
    proof -
      from that obtain e where "e \<in> set (replayed (timepoint_hash_map h) start finish)"
        "ident e = i"
        unfolding c by auto
      then show ?thesis
        unfolding set_replayed event_list_at_def HASH_FIND_INT_def by blast
    qed
    then show ?thesis using n c by simp
  qed
  then show "n = int (length (applied_idents calls))"
    and "\<And>i. i \<in> set (applied_idents calls) \<Longrightarrow>
           \<exists>t e. e \<in> set (event_list_at h t) \<and> applicable e \<and> ident e = i"
    by blast+
qed

text \<open>
  C10. In a History built through the interface, scheduling an event with a \<^verbatim>\<open>NULL\<close>
  payload at a timepoint \<open>t \<ge> 0\<close> returns a handle, raises the count of \<open>t\<close> by one, and the
  new entry is in the bucket that \<^verbatim>\<open>rwn_history_get_events\<close> enumerates (its \<^verbatim>\<open>NULL\<close> is
  among the stored values). Whatever apply behaviour was given, every replay that
  returns has not called it, and the returned count is the number of apply behaviours
  that ran; and replay does return for every range up to a \<open>finish\<close> below \<open>INT_MAX\<close>.
\<close>

theorem null_payload_never_applied:
  assumes "reachable h" "0 \<le> t"
  shows "fst (rwn_history_schedule h t p None a d) =
           Some \<lparr>timepoint = t, event_list_elem = next_ident h\<rparr> \<and>
         rwn_history_count_events (snd (rwn_history_schedule h t p None a d)) t =
           rwn_history_count_events h t + 1 \<and>
         new_entry h p None a d \<in>
           set (event_list_at (snd (rwn_history_schedule h t p None a d)) t) \<and>
         rwn_history_get_events (snd (rwn_history_schedule h t p None a d)) t =
           (rwn_history_count_events (snd (rwn_history_schedule h t p None a d)) t,
            map user_event (event_list_at (snd (rwn_history_schedule h t p None a d)) t)) \<and>
         (\<forall>start finish state max_threads w n w' calls.
            rwn_history_state_delta (snd (rwn_history_schedule h t p None a d))
              start finish state max_threads w = Inr (n, w', calls) \<longrightarrow>
            next_ident h \<notin> set (applied_idents calls) \<and>
            n = int (length (applied_idents calls))) \<and>
         (\<forall>start finish state max_threads w.
            0 \<le> start \<and> start \<le> finish \<and> finish < INT_MAX \<longrightarrow>
            (\<exists>r. rwn_history_state_delta (snd (rwn_history_schedule h t p None a d))
                   start finish state max_threads w = Inr r))"
proof -
  let ?h = "snd (rwn_history_schedule h t p None a d)"
  let ?e = "new_entry h p None a d"
  have wf: "wf_history h" using assms(1) by (rule reachable_wf)
  have 1: "fst (rwn_history_schedule h t p None a d) =
             Some \<lparr>timepoint = t, event_list_elem = next_ident h\<rparr>"
    by (rule schedule_handle [OF assms(2)])
  have 2: "rwn_history_count_events ?h t = rwn_history_count_events h t + 1"
    using assms(2) by (simp add: count_events_eq schedule_event_list_at)
  have 3: "?e \<in> set (event_list_at ?h t)"
    using assms(2) by (simp add: schedule_event_list_at)
  have 4: "rwn_history_get_events ?h t =
             (rwn_history_count_events ?h t, map user_event (event_list_at ?h t))"
    using assms(2) by (simp add: get_events_eq)
  have 5: "\<forall>start finish state max_threads w n w' calls.
            rwn_history_state_delta ?h start finish state max_threads w = Inr (n, w', calls) \<longrightarrow>
            next_ident h \<notin> set (applied_idents calls) \<and>
            n = int (length (applied_idents calls))"
  proof (intro allI impI conjI)
    fix start finish state max_threads w n w' calls
    assume r: "rwn_history_state_delta ?h start finish state max_threads w = Inr (n, w', calls)"
    show "n = int (length (applied_idents calls))"
      by (rule state_delta_result(1) [OF r])
    show "next_ident h \<notin> set (applied_idents calls)"
    proof
      assume "next_ident h \<in> set (applied_idents calls)"
      then obtain u e where e: "e \<in> set (event_list_at ?h u)" "applicable e"
        "ident e = next_ident h"
        using state_delta_result(2) [OF r] by blast
      have "e = ?e"
      proof (rule ccontr)
        assume "e \<noteq> ?e"
        then have "e \<in> set (event_list_at h u)"
          using e(1) assms(2) by (auto simp: schedule_event_list_at split: if_splits)
        then have "ident e < next_ident h"
          using wf_bound [OF wf, of "ident e" u] by (simp add: idents_at_def)
        with e(3) show False by simp
      qed
      with e(2) show False by (simp add: applicable_def new_entry_def)
    qed
  qed
  have 6: "\<forall>start finish state max_threads w.
            0 \<le> start \<and> start \<le> finish \<and> finish < INT_MAX \<longrightarrow>
            (\<exists>r. rwn_history_state_delta ?h start finish state max_threads w = Inr r)"
  proof (intro allI impI)
    fix start finish :: int and state :: "'b option" and max_threads :: int and w :: 'c
    assume "0 \<le> start \<and> start \<le> finish \<and> finish < INT_MAX"
    then have "0 \<le> start" "start \<le> finish" "finish < INT_MAX" by simp_all
    from state_delta_valid_range [OF this, of ?h state max_threads w]
    show "\<exists>r. rwn_history_state_delta ?h start finish state max_threads w = Inr r"
      by (elim exE conjE) (rule exI)
  qed
  show ?thesis
    by (intro conjI) (rule 1, rule 2, rule 3, rule 4, rule 5, rule 6)
qed

theorem null_payload_never_applied_witness:
  "reachable single_history \<and> (0 :: int) \<le> 0 \<and>
   fst (rwn_history_schedule single_history 0 0 None (Some test_event_incr_apply) None) =
     Some \<lparr>timepoint = 0, event_list_elem = 1\<rparr> \<and>
   rwn_history_count_events
     (snd (rwn_history_schedule single_history 0 0 None (Some test_event_incr_apply) None)) 0 = 2 \<and>
   rwn_history_get_events
     (snd (rwn_history_schedule single_history 0 0 None (Some test_event_incr_apply) None)) 0 =
     (2, [Some 1, None]) \<and>
   rwn_history_state_delta
     (snd (rwn_history_schedule single_history 0 0 None (Some test_event_incr_apply) None))
     0 0 (Some ()) 0 5 = Inr (1, 6, [Applied 0]) \<and>
   1 \<notin> set (applied_idents [Applied 0]) \<and> (1 :: int) = int (length (applied_idents [Applied 0]))"
proof -
  let ?h = "snd (rwn_history_schedule single_history 0 0 None (Some test_event_incr_apply) None)"
  have a: "(0 :: int) \<le> 0" by simp
  note t = null_payload_never_applied [OF reachable_single_history a, of 0 "Some test_event_incr_apply" None]
  have n: "next_ident single_history = 1" by (simp add: single_history_eval)
  have c: "rwn_history_count_events single_history 0 = 1"
    by (simp add: single_history_eval rwn_history_count_events_def HASH_FIND_INT_def LL_COUNT_def)
  have h: "?h = \<lparr>timepoint_hash_map =
        [(0, [\<lparr>ident = 0, user_event = Some 1,
                user_event_apply_func = Some test_event_incr_apply,
                user_event_destroy_func = Some free, phase = 0\<rparr>,
              \<lparr>ident = 1, user_event = None,
                user_event_apply_func = Some test_event_incr_apply,
                user_event_destroy_func = None, phase = 0\<rparr>])],
      event_handle_list = [\<lparr>timepoint = 0, event_list_elem = 0\<rparr>,
                           \<lparr>timepoint = 0, event_list_elem = 1\<rparr>],
      next_ident = 2\<rparr>"
    by (simp add: single_history_eval rwn_history_schedule_def
      event_list_at_def HASH_FIND_INT_def set_event_list_def LL_APPEND_def LL_SORT_def
      cmp_event_list_entries_by_phase_def Let_def)
  have g: "rwn_history_get_events ?h 0 = (2, [Some 1, None])"
    unfolding h
    by (simp add: rwn_history_get_events_def rwn_history_count_events_def
        HASH_FIND_INT_def LL_COUNT_def)
  have s: "rwn_history_state_delta ?h 0 0 (Some ()) 0 5 = Inr (1, 6, [Applied 0])"
    unfolding h
    by (simp add: state_delta_at_zero apply_timepoint_def test_event_incr_apply_def)
  have 1: "fst (rwn_history_schedule single_history 0 0 None (Some test_event_incr_apply) None) =
     Some \<lparr>timepoint = 0, event_list_elem = 1\<rparr>"
    using t [THEN conjunct1] by (simp add: n)
  have 2: "rwn_history_count_events ?h 0 = 2"
    using t [THEN conjunct2, THEN conjunct1] by (simp add: c)
  have 5: "1 \<notin> set (applied_idents [Applied 0]) \<and>
           (1 :: int) = int (length (applied_idents [Applied 0]))"
    using t [THEN conjunct2, THEN conjunct2, THEN conjunct2, THEN conjunct2, THEN conjunct1,
             rule_format, OF s]
    by (simp add: n)
  show ?thesis
    by (intro conjI)
       (rule reachable_single_history, rule a, rule 1, rule 2, rule g, rule s,
        rule 5 [THEN conjunct1], rule 5 [THEN conjunct2])
qed

section \<open>The phase barrier of the threaded replay\<close>

lemma monitor_joins:
  "foldl (barrier_step mt) (Some (fl, latest)) (join_threads js) =
     Some (filter (\<lambda>x. snd (snd x) \<notin> set js) fl, latest)"
proof (induction js arbitrary: fl)
  case Nil
  then show ?case by (simp add: join_threads_def)
next
  case (Cons j js)
  have "filter (\<lambda>x. snd (snd x) \<notin> set js) (filter (\<lambda>(t, p, k). k \<noteq> j) fl) =
          filter (\<lambda>x. snd (snd x) \<notin> set (j # js)) fl"
    by (induction fl) auto
  then show ?case
    using Cons.IH [of "filter (\<lambda>(t, p, k). k \<noteq> j) fl"]
    by (simp add: join_threads_def)
qed

lemma monitor_join_all:
  "map (\<lambda>x. snd (snd x)) fl = ths \<Longrightarrow>
     foldl (barrier_step mt) (Some (fl, latest)) (join_threads ths) = Some ([], latest)"
  by (force simp: monitor_joins filter_empty_conv)

lemma latest_below_before: "latest_below latest i \<Longrightarrow> latest_before latest i ps"
  by (auto simp: latest_below_def latest_before_def split: option.splits)

lemma latest_before_below: "latest_before latest i ps \<Longrightarrow> latest_below latest (i + 1)"
  by (auto simp: latest_below_def latest_before_def split: option.splits)

lemma latest_below_mono: "latest_below latest i \<Longrightarrow> latest_below latest (i + 1)"
  by (auto simp: latest_below_def split: option.splits)

lemma latest_before_subset: "latest_before latest i ps \<Longrightarrow> qs \<subseteq> ps \<Longrightarrow> latest_before latest i qs"
  by (auto simp: latest_before_def split: option.splits)

lemma monitor_spawn:
  assumes "int (length fl) < mt"
    and "\<forall>x \<in> set fl. fst x = i \<and> fst (snd x) = c"
    and "latest_before latest i {c}"
  shows "foldl (barrier_step mt) (Some (fl, latest)) [Spawned i c j, Applied j] =
           Some (fl @ [(i, c, j)], Some (i, c))"
proof -
  have a: "list_all (\<lambda>(t', p', k). t' = i \<and> p' = c) fl"
    using assms(2) by (auto simp: list_all_iff)
  have b: "(case latest of None \<Rightarrow> True | Some (t', p') \<Rightarrow> t' < i \<or> (t' = i \<and> p' \<le> c))"
    using assms(3) by (auto simp: latest_before_def split: option.splits)
  show ?thesis using assms(1) a b by simp
qed

lemma dispatch_skip:
  "\<not> applicable e \<Longrightarrow>
     dispatch_event_list mt i pp state (e # es) acc = dispatch_event_list mt i pp state es acc"
  by (cases acc) (auto simp: applicable_def split: option.split)

lemma dispatch_step:
  assumes "user_event e = Some p" "user_event_apply_func e = Some f"
  shows "dispatch_event_list mt i pp state (e # es) (ths, n, w, calls) =
           dispatch_event_list mt i pp state es
             ((if LL_COUNT ths \<ge> mt \<or> phase e \<noteq> pp then [] else ths) @ [ident e], n + 1,
              f p state w,
              (if LL_COUNT ths \<ge> mt \<or> phase e \<noteq> pp then calls @ join_threads ths else calls) @
                [Spawned i (phase e) (ident e), Applied (ident e)])"
  using assms by (simp add: Let_def)

lemma dispatch_monitor:
  assumes "0 < mt"
    and "sorted (map phase es)"
    and "\<forall>e \<in> set es. pp \<le> phase e"
    and "foldl (barrier_step mt) s0 calls = Some (fl, latest)"
    and "map (\<lambda>x. snd (snd x)) fl = ths"
    and "\<forall>x \<in> set fl. fst x = i \<and> pp \<le> fst (snd x) \<and> (\<forall>e \<in> set es. fst (snd x) \<le> phase e)"
    and "latest_before latest i (phase ` set es)"
  shows "\<exists>fl' latest'.
           foldl (barrier_step mt) s0
             (snd (snd (snd (dispatch_event_list mt i pp state es (ths, n, w, calls))))) =
             Some (fl', latest') \<and>
           map (\<lambda>x. snd (snd x)) fl' =
             fst (dispatch_event_list mt i pp state es (ths, n, w, calls)) \<and>
           latest_below latest' (i + 1)"
  using assms
proof (induction es arbitrary: ths n w calls fl latest)
  case Nil
  have "latest_below latest (i + 1)"
    using Nil.prems(7) by (rule latest_before_below)
  then show ?case using Nil.prems(4,5) by simp
next
  case (Cons e es)
  have srt: "sorted (map phase es)" and le: "\<forall>x \<in> set es. pp \<le> phase x"
    and ge: "\<forall>x \<in> set es. phase e \<le> phase x" and ppe: "pp \<le> phase e"
    using Cons.prems(2,3) by simp_all
  show ?case
  proof (cases "applicable e")
    case False
    have fl: "\<forall>x \<in> set fl. fst x = i \<and> pp \<le> fst (snd x) \<and> (\<forall>e \<in> set es. fst (snd x) \<le> phase e)"
      using Cons.prems(6) by simp
    have lt: "latest_before latest i (phase ` set es)"
      using Cons.prems(7) by (rule latest_before_subset) auto
    show ?thesis
      using Cons.IH [OF Cons.prems(1) srt le Cons.prems(4,5) fl lt, of n w]
      by (simp add: dispatch_skip [OF False] del: dispatch_event_list.simps)
  next
    case True
    then obtain p f where pf: "user_event e = Some p" "user_event_apply_func e = Some f"
      by (auto simp: applicable_def)
    let ?drain = "LL_COUNT ths \<ge> mt \<or> phase e \<noteq> pp"
    let ?ths1 = "if ?drain then [] else ths"
    let ?fl1 = "if ?drain then [] else fl"
    let ?calls1 = "if ?drain then calls @ join_threads ths else calls"
    let ?calls2 = "?calls1 @ [Spawned i (phase e) (ident e), Applied (ident e)]"
    have m1: "foldl (barrier_step mt) s0 ?calls1 = Some (?fl1, latest)"
      using Cons.prems(4) monitor_join_all [OF Cons.prems(5), of mt latest] by simp
    have len: "int (length ?fl1) < mt"
      using Cons.prems(1,5) by (auto simp: LL_COUNT_def)
    have same: "\<forall>x \<in> set ?fl1. fst x = i \<and> fst (snd x) = phase e"
    proof (cases ?drain)
      case True
      then show ?thesis by simp
    next
      case False
      then have "phase e = pp" by simp
      then show ?thesis using Cons.prems(6) False by fastforce
    qed
    have lb: "latest_before latest i {phase e}"
      using Cons.prems(7) by (rule latest_before_subset) auto
    have m2: "foldl (barrier_step mt) s0 ?calls2 =
                Some (?fl1 @ [(i, phase e, ident e)], Some (i, phase e))"
      using monitor_spawn [OF len same lb, of "ident e"] m1 by simp
    have ids: "map (\<lambda>x. snd (snd x)) (?fl1 @ [(i, phase e, ident e)]) = ?ths1 @ [ident e]"
      using Cons.prems(5) by simp
    have fl2: "\<forall>x \<in> set (?fl1 @ [(i, phase e, ident e)]).
                 fst x = i \<and> pp \<le> fst (snd x) \<and> (\<forall>e \<in> set es. fst (snd x) \<le> phase e)"
      using Cons.prems(6) ge ppe by auto
    have lt2: "latest_before (Some (i, phase e)) i (phase ` set es)"
      using ge by (simp add: latest_before_def)
    show ?thesis
      using Cons.IH [OF Cons.prems(1) srt le m2 ids fl2 lt2, of "n + 1" "f p state w"]
      by (simp add: dispatch_step [OF pf] del: dispatch_event_list.simps)
  qed
qed

lemma apply_timepoint_monitor:
  assumes "0 < mt" "sorted (map phase es)"
    and "foldl (barrier_step mt) s0 calls = Some ([], latest)"
    and "latest_below latest i"
  shows "\<exists>latest'.
           foldl (barrier_step mt) s0 (snd (snd (apply_timepoint mt i state es (n, w, calls)))) =
             Some ([], latest') \<and>
           latest_below latest' (i + 1)"
proof (cases es)
  case Nil
  have "latest_below latest (i + 1)"
    using assms(4) by (rule latest_below_mono)
  then show ?thesis using assms(1,3) Nil by (auto simp: apply_timepoint_def)
next
  case (Cons e es')
  have le: "\<forall>x \<in> set es. phase e \<le> phase x"
    using assms(2) Cons by auto
  have lt: "latest_before latest i (phase ` set es)"
    using assms(4) by (rule latest_below_before)
  obtain ths' n' w' calls' where
    d: "dispatch_event_list mt i (phase e) state es ([], n, w, calls) = (ths', n', w', calls')"
    using prod_cases4 by blast
  obtain fl' latest' where
    m: "foldl (barrier_step mt) s0 calls' = Some (fl', latest')"
    and ids: "map (\<lambda>x. snd (snd x)) fl' = ths'"
    and lb: "latest_below latest' (i + 1)"
    using dispatch_monitor [OF assms(1,2) le assms(3) _ _ lt, of "[]" state n w]
    unfolding d by auto
  have "foldl (barrier_step mt) s0 (calls' @ join_threads ths') = Some ([], latest')"
    using m monitor_join_all [OF ids, of mt latest'] by simp
  then show ?thesis
    using lb by (auto simp: apply_timepoint_threads [OF assms(1) Cons d])
qed

lemma state_delta_loop_monitor:
  assumes "0 < mt"
    and "\<forall>t es. map_of m t = Some es \<longrightarrow> sorted (map phase es)"
    and "state_delta_loop m i f state mt acc = Inr r"
    and "foldl (barrier_step mt) s0 (snd (snd acc)) = Some ([], latest)"
    and "latest_below latest i"
  shows "\<exists>latest'. foldl (barrier_step mt) s0 (snd (snd r)) = Some ([], latest')"
  using assms
proof (induction m i f state mt acc arbitrary: latest rule: state_delta_loop.induct)
  case (1 m i f state mt acc)
  show ?case
  proof (cases "i \<le> f")
    case False
    then have "r = acc" using "1.prems"(3) by (simp add: state_delta_loop.simps [of m i f])
    then show ?thesis using "1.prems"(4) by blast
  next
    case True
    obtain n w calls where acc: "acc = (n, w, calls)" using prod_cases3 by blast
    define acc' where "acc' = (case HASH_FIND_INT m i of None \<Rightarrow> acc
        | Some es \<Rightarrow> if es \<noteq> [] then apply_timepoint mt i state es acc else acc)"
    have ne: "i \<noteq> INT_MAX"
      and rec: "state_delta_loop m (i + 1) f state mt acc' = Inr r"
      using "1.prems"(3) True
      by (auto simp: state_delta_loop.simps [of m i f] Let_def acc'_def split: if_splits)
    have "\<exists>latest'. foldl (barrier_step mt) s0 (snd (snd acc')) = Some ([], latest') \<and>
            latest_below latest' (i + 1)"
    proof (cases "\<exists>es. map_of m i = Some es \<and> es \<noteq> []")
      case True
      then obtain es where es: "map_of m i = Some es" "es \<noteq> []" by blast
      then have a: "acc' = apply_timepoint mt i state es (n, w, calls)"
        by (simp add: acc'_def HASH_FIND_INT_def acc)
      show ?thesis
        unfolding a
        using apply_timepoint_monitor [OF "1.prems"(1) "1.prems"(2) [rule_format, OF es(1)], of s0 calls latest i]
          "1.prems"(4,5) acc
        by simp
    next
      case False
      then have a: "acc' = acc"
        by (auto simp: acc'_def HASH_FIND_INT_def split: option.splits)
      have "latest_below latest (i + 1)"
        using "1.prems"(5) by (rule latest_below_mono)
      then show ?thesis using "1.prems"(4) a by blast
    qed
    then obtain latest' where
      m: "foldl (barrier_step mt) s0 (snd (snd acc')) = Some ([], latest')"
      and lb: "latest_below latest' (i + 1)" by blast
    show ?thesis
      by (rule "1.IH" [OF True _ ne "1.prems"(1) "1.prems"(2) rec m lb])
         (simp_all add: acc'_def)
  qed
qed

lemma monitor_None [simp]: "foldl (barrier_step mt) None cs = None"
  by (induction cs) simp_all

lemma monitor_prefix:
  assumes "foldl (barrier_step mt) s (a @ b) = Some r"
  obtains r' where "foldl (barrier_step mt) s a = Some r'"
    and "foldl (barrier_step mt) (Some r') b = Some r"
proof (cases "foldl (barrier_step mt) s a")
  case None
  with assms show ?thesis by simp
next
  case (Some r')
  with assms have "foldl (barrier_step mt) (Some r') b = Some r" by simp
  with Some show ?thesis by (rule that)
qed

lemma monitor_Cons:
  assumes "foldl (barrier_step mt) (Some r0) (c # cs) = Some r"
  obtains r1 where "barrier_step mt (Some r0) c = Some r1"
    and "foldl (barrier_step mt) (Some r1) cs = Some r"
proof (cases "barrier_step mt (Some r0) c")
  case None
  with assms show ?thesis by simp
next
  case (Some r1)
  with assms have "foldl (barrier_step mt) (Some r1) cs = Some r" by simp
  with Some show ?thesis by (rule that)
qed

lemma barrier_step_Spawned:
  assumes "barrier_step mt (Some (fl, latest)) (Spawned t p i) = Some r"
  shows "r = (fl @ [(t, p, i)], Some (t, p))"
    and "int (length fl) < mt"
    and "\<forall>x \<in> set fl. fst x = t \<and> fst (snd x) = p"
    and "case latest of None \<Rightarrow> True | Some (t', p') \<Rightarrow> t' < t \<or> (t' = t \<and> p' \<le> p)"
  using assms by (auto simp: list_all_iff split: if_splits)

lemma barrier_step_cases:
  assumes "barrier_step mt (Some (fl, latest)) c = Some (fl', latest')"
  shows "(\<exists>t p i. c = Spawned t p i \<and> fl' = fl @ [(t, p, i)] \<and> latest' = Some (t, p)) \<or>
         (\<exists>i. c = Joined i \<and> fl' = filter (\<lambda>x. snd (snd x) \<noteq> i) fl \<and> latest' = latest) \<or>
         (\<exists>i. c = Applied i \<and> fl' = fl \<and> latest' = latest)"
proof (cases c)
  case (Spawned t p i)
  then show ?thesis using barrier_step_Spawned(1) [of mt fl latest t p i] assms by auto
next
  case (Joined i)
  have "filter (\<lambda>(t, p, j). j \<noteq> i) fl = filter (\<lambda>x. snd (snd x) \<noteq> i) fl"
    by (rule filter_cong) auto
  then show ?thesis using Joined assms by auto
next
  case (Applied i)
  then show ?thesis using assms by (auto split: if_splits)
next
  case (Destroyed i)
  then show ?thesis using assms by simp
qed

lemma monitor_leaves_by_join:
  assumes "foldl (barrier_step mt) (Some (fl, latest)) cs = Some (fl', latest')"
    and "x \<in> set fl" "x \<notin> set fl'"
  shows "Joined (snd (snd x)) \<in> set cs"
  using assms
proof (induction cs arbitrary: fl latest)
  case Nil
  then show ?case by simp
next
  case (Cons c cs)
  from Cons.prems(1) obtain r1 where s: "barrier_step mt (Some (fl, latest)) c = Some r1"
    and r: "foldl (barrier_step mt) (Some r1) cs = Some (fl', latest')"
    by (rule monitor_Cons)
  obtain fl1 l1 where r1: "r1 = (fl1, l1)" by (cases r1)
  show ?case
  proof (cases "x \<in> set fl1")
    case True
    then have "Joined (snd (snd x)) \<in> set cs"
      using Cons.IH [of fl1 l1] r r1 Cons.prems(3) by simp
    then show ?thesis by simp
  next
    case False
    then have "c = Joined (snd (snd x))"
      using barrier_step_cases [of mt fl latest c fl1 l1] s r1 Cons.prems(2) by auto
    then show ?thesis by simp
  qed
qed

lemma monitor_latest_monotone:
  assumes "foldl (barrier_step mt) (Some (fl, Some (t0, p0))) cs = Some r"
    and "Spawned t p i \<in> set cs"
  shows "t0 < t \<or> (t0 = t \<and> p0 \<le> p)"
  using assms
proof (induction cs arbitrary: fl t0 p0)
  case Nil
  then show ?case by simp
next
  case (Cons c cs)
  from Cons.prems(1) obtain r1 where s: "barrier_step mt (Some (fl, Some (t0, p0))) c = Some r1"
    and r: "foldl (barrier_step mt) (Some r1) cs = Some r"
    by (rule monitor_Cons)
  obtain fl1 l1 where r1: "r1 = (fl1, l1)" by (cases r1)
  note cs = barrier_step_cases [of mt fl "Some (t0, p0)" c fl1 l1]
  show ?case
  proof (cases "c = Spawned t p i")
    case True
    then show ?thesis using barrier_step_Spawned(4) [of mt fl "Some (t0, p0)" t p i r1] s by simp
  next
    case False
    then have mem: "Spawned t p i \<in> set cs" using Cons.prems(2) by simp
    show ?thesis
    proof (cases "\<exists>t1 p1 i1. c = Spawned t1 p1 i1")
      case True
      then obtain t1 p1 i1 where c: "c = Spawned t1 p1 i1" by blast
      have "l1 = Some (t1, p1)"
        using barrier_step_Spawned(1) [of mt fl "Some (t0, p0)" t1 p1 i1 r1] s c r1 by simp
      then have "t1 < t \<or> (t1 = t \<and> p1 \<le> p)"
        using Cons.IH [of fl1 t1 p1] r r1 mem by simp
      moreover have "t0 < t1 \<or> (t0 = t1 \<and> p0 \<le> p1)"
        using barrier_step_Spawned(4) [of mt fl "Some (t0, p0)" t1 p1 i1 r1] s c by simp
      ultimately show ?thesis by auto
    next
      case False
      then have "l1 = Some (t0, p0)" using cs s r1 by auto
      then show ?thesis using Cons.IH [of fl1 t0 p0] r r1 mem by simp
    qed
  qed
qed

lemma monitor_bound:
  assumes "foldl (barrier_step mt) (Some (fl, latest)) cs = Some (fl', latest')"
    and "int (length fl) \<le> mt"
  shows "int (length fl') \<le> mt"
  using assms
proof (induction cs arbitrary: fl latest)
  case Nil
  then show ?case by simp
next
  case (Cons c cs)
  from Cons.prems(1) obtain r1 where s: "barrier_step mt (Some (fl, latest)) c = Some r1"
    and r: "foldl (barrier_step mt) (Some r1) cs = Some (fl', latest')"
    by (rule monitor_Cons)
  obtain fl1 l1 where r1: "r1 = (fl1, l1)" by (cases r1)
  from s r1 have st: "barrier_step mt (Some (fl, latest)) c = Some (fl1, l1)" by simp
  have "length fl1 \<le> length fl \<or> (\<exists>t p i. c = Spawned t p i)"
    using barrier_step_cases [OF st] by (elim disjE exE conjE) simp_all
  then have "int (length fl1) \<le> mt"
  proof
    assume "length fl1 \<le> length fl"
    then show ?thesis using Cons.prems(2) by simp
  next
    assume "\<exists>t p i. c = Spawned t p i"
    then obtain t p i where c: "c = Spawned t p i" by blast
    note sp = st [unfolded c]
    have "(fl1, l1) = (fl @ [(t, p, i)], Some (t, p))" by (rule barrier_step_Spawned(1) [OF sp])
    moreover have "int (length fl) < mt" by (rule barrier_step_Spawned(2) [OF sp])
    ultimately show ?thesis by simp
  qed
  then show ?case using Cons.IH [of fl1 l1 ] r r1 by blast
qed

lemma removeAll_map_filter:
  "removeAll i (map f xs) = map f (filter (\<lambda>x. f x \<noteq> i) xs)"
  by (induction xs) auto

lemma monitor_in_flight:
  assumes "foldl (barrier_step mt) (Some (fl, latest)) cs = Some (fl', latest')"
  shows "map (\<lambda>x. snd (snd x)) fl' = foldl in_flight_step (map (\<lambda>x. snd (snd x)) fl) cs"
  using assms
proof (induction cs arbitrary: fl latest)
  case Nil
  then show ?case by simp
next
  case (Cons c cs)
  from Cons.prems(1) obtain r1 where s: "barrier_step mt (Some (fl, latest)) c = Some r1"
    and r: "foldl (barrier_step mt) (Some r1) cs = Some (fl', latest')"
    by (rule monitor_Cons)
  obtain fl1 l1 where r1: "r1 = (fl1, l1)" by (cases r1)
  have "map (\<lambda>x. snd (snd x)) fl1 = in_flight_step (map (\<lambda>x. snd (snd x)) fl) c"
    using barrier_step_cases [of mt fl latest c fl1 l1] s r1
    by (auto simp: removeAll_map_filter)
  then show ?case using Cons.IH [of fl1 l1] r r1 by simp
qed

lemma monitor_in_flight_after:
  assumes "barrier_monitor mt a = Some (fl, latest)"
  shows "map (\<lambda>x. snd (snd x)) fl = in_flight_after a"
  using monitor_in_flight [of mt "[]" None a fl latest] assms
  by (simp add: barrier_monitor_def in_flight_after_def)

lemma monitor_barrier:
  assumes acc: "barrier_monitor mt calls = Some r"
    and split: "calls = a @ Spawned t p i # b"
    and mem: "Spawned t' p' j \<in> set calls"
    and lt: "t' < t \<or> (t' = t \<and> p' < p)"
  shows "\<exists>a1 a2. a = a1 @ Spawned t' p' j # a2 \<and> Joined j \<in> set a2"
proof -
  from acc obtain ra where ra: "foldl (barrier_step mt) (Some ([], None)) a = Some ra"
    and rb: "foldl (barrier_step mt) (Some ra) (Spawned t p i # b) = Some r"
    unfolding barrier_monitor_def split by (rule monitor_prefix)
  obtain fla la where raa: "ra = (fla, la)" by (cases ra)
  from rb obtain r1 where s1: "barrier_step mt (Some (fla, la)) (Spawned t p i) = Some r1"
    and r1: "foldl (barrier_step mt) (Some r1) b = Some r"
    unfolding raa by (rule monitor_Cons)
  have slot: "\<forall>x \<in> set fla. fst x = t \<and> fst (snd x) = p"
    by (rule barrier_step_Spawned(3) [OF s1])
  have r1': "r1 = (fla @ [(t, p, i)], Some (t, p))"
    by (rule barrier_step_Spawned(1) [OF s1])
  have notb: "Spawned t' p' j \<notin> set b"
  proof
    assume "Spawned t' p' j \<in> set b"
    then have "t < t' \<or> (t = t' \<and> p \<le> p')"
      using monitor_latest_monotone [of mt "fla @ [(t, p, i)]" t p b r t' p' j] r1 r1' by simp
    with lt show False by auto
  qed
  have "Spawned t' p' j \<noteq> Spawned t p i" using lt by auto
  with mem notb have "Spawned t' p' j \<in> set a" unfolding split by auto
  then obtain a1 a2 where a: "a = a1 @ Spawned t' p' j # a2"
    by (meson split_list)
  from ra obtain q1 where q1: "foldl (barrier_step mt) (Some ([], None)) a1 = Some q1"
    and q2: "foldl (barrier_step mt) (Some q1) (Spawned t' p' j # a2) = Some ra"
    unfolding a by (rule monitor_prefix)
  obtain fl1 l1 where q1': "q1 = (fl1, l1)" by (cases q1)
  from q2 obtain q3 where s3: "barrier_step mt (Some (fl1, l1)) (Spawned t' p' j) = Some q3"
    and q4: "foldl (barrier_step mt) (Some q3) a2 = Some ra"
    unfolding q1' by (rule monitor_Cons)
  have q3': "q3 = (fl1 @ [(t', p', j)], Some (t', p'))"
    by (rule barrier_step_Spawned(1) [OF s3])
  have "(t', p', j) \<notin> set fla" using slot lt by fastforce
  then have "Joined (snd (snd (t', p', j))) \<in> set a2"
    using monitor_leaves_by_join [of mt "fl1 @ [(t', p', j)]" "Some (t', p')" a2 fla la "(t', p', j)"]
      q4 q3' raa by simp
  then show ?thesis using a by auto
qed

lemma monitor_applied:
  assumes acc: "barrier_monitor mt calls = Some r"
    and split: "calls = a @ Applied i # b"
  shows "i \<in> set (in_flight_after a)"
proof -
  from acc obtain ra where ra: "foldl (barrier_step mt) (Some ([], None)) a = Some ra"
    and rb: "foldl (barrier_step mt) (Some ra) (Applied i # b) = Some r"
    unfolding barrier_monitor_def split by (rule monitor_prefix)
  obtain fla la where raa: "ra = (fla, la)" by (cases ra)
  from rb obtain r1 where s1: "barrier_step mt (Some (fla, la)) (Applied i) = Some r1"
    unfolding raa by (rule monitor_Cons)
  then have "list_ex (\<lambda>(t, p, j). j = i) fla" by (simp split: if_splits)
  then have "i \<in> set (map (\<lambda>x. snd (snd x)) fla)" by (force simp: list_ex_iff)
  moreover have "map (\<lambda>x. snd (snd x)) fla = in_flight_after a"
    using ra raa by (intro monitor_in_flight_after [of mt]) (simp add: barrier_monitor_def)
  ultimately show ?thesis by simp
qed

lemma monitor_in_flight_bound:
  assumes acc: "barrier_monitor mt calls = Some r" and mt: "0 \<le> mt"
    and split: "calls = a @ b"
  shows "int (length (in_flight_after a)) \<le> mt"
proof -
  from acc obtain ra where ra: "foldl (barrier_step mt) (Some ([], None)) a = Some ra"
    unfolding barrier_monitor_def split by (rule monitor_prefix)
  obtain fla la where raa: "ra = (fla, la)" by (cases ra)
  have "int (length fla) \<le> mt"
    using monitor_bound [of mt "[]" None a fla la] ra raa mt by simp
  moreover have "map (\<lambda>x. snd (snd x)) fla = in_flight_after a"
    using ra raa by (intro monitor_in_flight_after [of mt]) (simp add: barrier_monitor_def)
  ultimately show ?thesis by (metis length_map)
qed

lemma join_threads_no_spawn: "Spawned t p j \<notin> set (join_threads ths)"
  by (auto simp: join_threads_def)

lemma dispatch_spawned:
  "Spawned t p j \<in> set (snd (snd (snd (dispatch_event_list mt i pp state es (ths, n, w, calls))))) \<Longrightarrow>
     Spawned t p j \<in> set calls \<or> (t = i \<and> (\<exists>e \<in> set es. ident e = j \<and> phase e = p))"
proof (induction es arbitrary: ths n w calls)
  case Nil
  then show ?case by simp
next
  case (Cons e es)
  show ?case
  proof (cases "applicable e")
    case False
    then show ?thesis
      using Cons.IH [of ths n w calls] Cons.prems
      by (auto simp: dispatch_skip simp del: dispatch_event_list.simps)
  next
    case True
    then obtain q f where pf: "user_event e = Some q" "user_event_apply_func e = Some f"
      by (auto simp: applicable_def)
    from Cons.prems [unfolded dispatch_step [OF pf]]
    have "Spawned t p j \<in> set ((if LL_COUNT ths \<ge> mt \<or> phase e \<noteq> pp
              then calls @ join_threads ths else calls) @
             [Spawned i (phase e) (ident e), Applied (ident e)]) \<or>
          (t = i \<and> (\<exists>e \<in> set es. ident e = j \<and> phase e = p))"
      by (rule Cons.IH)
    then show ?thesis
      using join_threads_no_spawn [of t p j ths] by (auto split: if_splits)
  qed
qed

lemma apply_timepoint_spawned:
  assumes "Spawned t p j \<in> set (snd (snd (apply_timepoint mt i state es (n, w, calls))))"
  shows "Spawned t p j \<in> set calls \<or> (t = i \<and> (\<exists>e \<in> set es. ident e = j \<and> phase e = p))"
proof (cases "mt > 0")
  case False
  then show ?thesis using assms by (auto simp: apply_timepoint_def apply_event_list_calls)
next
  case True
  show ?thesis
  proof (cases es)
    case Nil
    then show ?thesis using assms True by (simp add: apply_timepoint_def)
  next
    case (Cons e es')
    obtain ths' n' w' calls' where
      d: "dispatch_event_list mt i (phase e) state es ([], n, w, calls) = (ths', n', w', calls')"
      using prod_cases4 by blast
    have "Spawned t p j \<in> set calls'"
      using assms join_threads_no_spawn [of t p j ths']
      by (simp add: apply_timepoint_threads [OF True Cons d])
    then show ?thesis
      using dispatch_spawned [of t p j mt i "phase e" state es "[]" n w calls] d by simp
  qed
qed

lemma state_delta_loop_spawned:
  assumes "state_delta_loop m i f state mt acc = Inr r"
    and "Spawned t p j \<in> set (snd (snd r))"
  shows "Spawned t p j \<in> set (snd (snd acc)) \<or>
         (\<exists>es. map_of m t = Some es \<and> (\<exists>e \<in> set es. ident e = j \<and> phase e = p))"
  using assms
proof (induction m i f state mt acc rule: state_delta_loop.induct)
  case (1 m i f state mt acc)
  show ?case
  proof (cases "i \<le> f")
    case False
    then have "r = acc" using "1.prems"(1) by (simp add: state_delta_loop.simps [of m i f])
    then show ?thesis using "1.prems"(2) by simp
  next
    case True
    obtain n w calls where acc: "acc = (n, w, calls)" using prod_cases3 by blast
    define acc' where "acc' = (case HASH_FIND_INT m i of None \<Rightarrow> acc
        | Some es \<Rightarrow> if es \<noteq> [] then apply_timepoint mt i state es acc else acc)"
    have ne: "i \<noteq> INT_MAX"
      and rec: "state_delta_loop m (i + 1) f state mt acc' = Inr r"
      using "1.prems"(1) True
      by (auto simp: state_delta_loop.simps [of m i f] Let_def acc'_def split: if_splits)
    have "Spawned t p j \<in> set (snd (snd acc')) \<or>
         (\<exists>es. map_of m t = Some es \<and> (\<exists>e \<in> set es. ident e = j \<and> phase e = p))"
      by (rule "1.IH" [OF True _ ne rec "1.prems"(2)]) (simp add: acc'_def)
    moreover have "Spawned t p j \<in> set (snd (snd acc)) \<or>
         (\<exists>es. map_of m t = Some es \<and> (\<exists>e \<in> set es. ident e = j \<and> phase e = p))"
      if a: "Spawned t p j \<in> set (snd (snd acc'))"
    proof (cases "\<exists>es. map_of m i = Some es \<and> es \<noteq> []")
      case True
      then obtain es where es: "map_of m i = Some es" "es \<noteq> []" by blast
      then have "acc' = apply_timepoint mt i state es (n, w, calls)"
        by (simp add: acc'_def HASH_FIND_INT_def acc)
      then show ?thesis
        using apply_timepoint_spawned [of t p j mt i state es n w calls] a es(1) acc by auto
    next
      case False
      then have "acc' = acc"
        by (auto simp: acc'_def HASH_FIND_INT_def split: option.splits)
      then show ?thesis using a by simp
    qed
    ultimately show ?thesis by blast
  qed
qed

text \<open>
  C9. For a History built through the interface, \<open>max_threads > 0\<close> and
  \<open>0 \<le> start \<le> finish < INT_MAX\<close>, the replay returns and its calls satisfy:
  \<^item> every thread is created for an entry of the History, with that entry's timepoint and
    phase;
  \<^item> when a thread is created for a task of timepoint \<open>t\<close> and phase \<open>p\<close>, every task of
    the run that belongs to an earlier timepoint, or to an earlier phase of \<open>t\<close>, was
    created before and has been joined before;
  \<^item> an apply behaviour runs only in a task that is in flight (created and not joined);
  \<^item> at no point are more than \<open>max_threads\<close> tasks in flight;
  \<^item> when the replay returns no task is in flight.
  A task starts no earlier than its \<^verbatim>\<open>pthread_create\<close> and has completed when its
  \<^verbatim>\<open>pthread_join\<close> returns, so this is the barrier between phases and between timepoints.
\<close>

theorem threaded_replay_phase_barrier:
  assumes "reachable h" "0 < max_threads" "0 \<le> start" "start \<le> finish" "finish < INT_MAX"
  shows "\<exists>n w' calls.
           rwn_history_state_delta h start finish state max_threads w = Inr (n, w', calls) \<and>
           (\<forall>t p i. Spawned t p i \<in> set calls \<longrightarrow>
              (\<exists>e \<in> set (event_list_at h t). ident e = i \<and> phase e = p)) \<and>
           (\<forall>a b t p i t' p' j.
              calls = a @ Spawned t p i # b \<and> Spawned t' p' j \<in> set calls \<and>
              (t' < t \<or> (t' = t \<and> p' < p)) \<longrightarrow>
              (\<exists>a1 a2. a = a1 @ Spawned t' p' j # a2 \<and> Joined j \<in> set a2)) \<and>
           (\<forall>a b i. calls = a @ Applied i # b \<longrightarrow> i \<in> set (in_flight_after a)) \<and>
           (\<forall>a b. calls = a @ b \<longrightarrow> int (length (in_flight_after a)) \<le> max_threads) \<and>
           in_flight_after calls = []"
proof -
  have wf: "wf_history h" using assms(1) by (rule reachable_wf)
  obtain r where l: "state_delta_loop (timepoint_hash_map h) start finish state max_threads
                       (0, w, []) = Inr r"
    using state_delta_loop_returns [OF assms(5)] by blast
  obtain n w' calls where r: "r = (n, w', calls)" using prod_cases3 by blast
  have res: "rwn_history_state_delta h start finish state max_threads w = Inr (n, w', calls)"
    using assms(3,4) l r by (simp add: rwn_history_state_delta_def)
  have srt: "\<forall>t es. map_of (timepoint_hash_map h) t = Some es \<longrightarrow> sorted (map phase es)"
  proof (intro allI impI)
    fix t es
    assume "map_of (timepoint_hash_map h) t = Some es"
    then have "event_list_at h t = es" by (simp add: event_list_at_def HASH_FIND_INT_def)
    then show "sorted (map phase es)" using wf_ordered [OF wf, of t] by (simp add: phase_ordered_def)
  qed
  obtain latest where "foldl (barrier_step max_threads) (Some ([], None)) (snd (snd r)) =
                         Some ([], latest)"
    using state_delta_loop_monitor [OF assms(2) srt l, where ?s0.0 = "Some ([], None)"
        and latest = None]
    by (auto simp: latest_below_def)
  then have mon: "barrier_monitor max_threads calls = Some ([], latest)"
    by (simp add: barrier_monitor_def r)
  have 1: "\<forall>t p i. Spawned t p i \<in> set calls \<longrightarrow>
              (\<exists>e \<in> set (event_list_at h t). ident e = i \<and> phase e = p)"
  proof (intro allI impI)
    fix t p i
    assume "Spawned t p i \<in> set calls"
    then have "\<exists>es. map_of (timepoint_hash_map h) t = Some es \<and>
                 (\<exists>e \<in> set es. ident e = i \<and> phase e = p)"
      using state_delta_loop_spawned [OF l, of t p i] r by simp
    then show "\<exists>e \<in> set (event_list_at h t). ident e = i \<and> phase e = p"
      by (auto simp: event_list_at_def HASH_FIND_INT_def)
  qed
  have 2: "\<forall>a b t p i t' p' j.
              calls = a @ Spawned t p i # b \<and> Spawned t' p' j \<in> set calls \<and>
              (t' < t \<or> (t' = t \<and> p' < p)) \<longrightarrow>
              (\<exists>a1 a2. a = a1 @ Spawned t' p' j # a2 \<and> Joined j \<in> set a2)"
  proof (intro allI impI, elim conjE)
    fix a b t p i t' p' j
    assume "calls = a @ Spawned t p i # b" "Spawned t' p' j \<in> set calls"
      "t' < t \<or> (t' = t \<and> p' < p)"
    then show "\<exists>a1 a2. a = a1 @ Spawned t' p' j # a2 \<and> Joined j \<in> set a2"
      by (rule monitor_barrier [OF mon])
  qed
  have 3: "\<forall>a b i. calls = a @ Applied i # b \<longrightarrow> i \<in> set (in_flight_after a)"
    using monitor_applied [OF mon] by blast
  have 4: "\<forall>a b. calls = a @ b \<longrightarrow> int (length (in_flight_after a)) \<le> max_threads"
    using monitor_in_flight_bound [OF mon] assms(2) by simp
  have 5: "in_flight_after calls = []"
    using monitor_in_flight_after [OF mon] by simp
  show ?thesis
    by (intro exI conjI) (rule res, rule 1, rule 2, rule 3, rule 4, rule 5)
qed

theorem threaded_replay_phase_barrier_witness:
  "reachable phases_history \<and> (0 :: int) < 2 \<and> (0 :: int) \<le> 0 \<and> (0 :: int) < INT_MAX \<and>
   rwn_history_state_delta phases_history 0 0 (Some ()) 2 0 =
     Inr (4, 3, [Spawned 0 0 1, Applied 1, Spawned 0 0 3, Applied 3, Joined 1, Joined 3,
                 Spawned 0 1 0, Applied 0, Joined 0, Spawned 0 1 2, Applied 2, Joined 2]) \<and>
   (\<exists>n w' calls.
      rwn_history_state_delta phases_history 0 0 (Some ()) 2 0 = Inr (n, w', calls) \<and>
      (\<forall>t p i. Spawned t p i \<in> set calls \<longrightarrow>
         (\<exists>e \<in> set (event_list_at phases_history t). ident e = i \<and> phase e = p)) \<and>
      (\<forall>a b t p i t' p' j.
         calls = a @ Spawned t p i # b \<and> Spawned t' p' j \<in> set calls \<and>
         (t' < t \<or> (t' = t \<and> p' < p)) \<longrightarrow>
         (\<exists>a1 a2. a = a1 @ Spawned t' p' j # a2 \<and> Joined j \<in> set a2)) \<and>
      (\<forall>a b i. calls = a @ Applied i # b \<longrightarrow> i \<in> set (in_flight_after a)) \<and>
      (\<forall>a b. calls = a @ b \<longrightarrow> int (length (in_flight_after a)) \<le> 2) \<and>
      in_flight_after calls = [])"
proof -
  have a: "(0 :: int) < 2" and b: "(0 :: int) \<le> 0" and c: "(0 :: int) < INT_MAX"
    by (simp_all add: INT_MAX_def)
  have e: "rwn_history_state_delta phases_history 0 0 (Some ()) 2 0 =
     Inr (4, 3, [Spawned 0 0 1, Applied 1, Spawned 0 0 3, Applied 3, Joined 1, Joined 3,
                 Spawned 0 1 0, Applied 0, Joined 0, Spawned 0 1 2, Applied 2, Joined 2])"
    by (simp add: state_delta_at_zero phases_history_eval apply_timepoint_def
        test_event_incr_apply_def test_event_mult_apply_def LL_COUNT_def join_threads_def)
  note t = threaded_replay_phase_barrier [OF reachable_phases_history a b b c, of "Some ()" 0]
  show ?thesis
    by (intro conjI) (rule reachable_phases_history, rule a, rule b, rule c, rule e, rule t)
qed

end
